theory Spec2Isabelle
  imports
    Complex_Main
    "HOL-Library.Word"
    "HOL-Library.Char_ord"
    "HOL-Library.List_Lexorder"
    "HOL-Library.AList"
begin

unbundle bit_operations_syntax

section \<open>The Scikit-Optimize sampler of optuna (optuna/integration/skopt.py)\<close>

text \<open>
  The module adapts optuna's sampler interface to \<^verbatim>\<open>skopt.Optimizer\<close>. The class
  \<^verbatim>\<open>SkoptSampler\<close> computes the search space that is sampled jointly and delegates to
  the private class \<^verbatim>\<open>_Optimizer\<close>, which builds the skopt dimensions, replays the
  completed trials (\<^verbatim>\<open>tell\<close>) and decodes the proposed point (\<^verbatim>\<open>ask\<close>).

  Python dictionaries are association lists in insertion order (the keys of a dictionary are
  distinct); exceptions are values of the type \<open>error\<close>; the skopt optimizer object is
  the list of the calls it has received.
\<close>

subsection \<open>Python floats: the binary64 bit pattern\<close>

text \<open>
  The bounds of the continuous distributions are Python floats. They are kept as their
  IEEE 754 binary64 bit pattern, because the constructor of \<^verbatim>\<open>_Optimizer\<close> moves the upper
  bound by one representable step. Bit 63 is the sign, bits 62..52 the biased exponent,
  bits 51..0 the fraction.
\<close>

type_synonym f64 = "64 word"

definition f64_sign :: "f64 \<Rightarrow> bool" where
  "f64_sign w = bit w 63"

definition f64_mag :: "f64 \<Rightarrow> nat" where
  \<comment> \<open>exponent and fraction fields read as one 63-bit number\<close>
  "f64_mag w = unat (take_bit 63 w)"

definition f64_exponent :: "f64 \<Rightarrow> nat" where
  "f64_exponent w = f64_mag w div 2 ^ 52"

definition f64_fraction :: "f64 \<Rightarrow> nat" where
  "f64_fraction w = f64_mag w mod 2 ^ 52"

definition f64_is_nan :: "f64 \<Rightarrow> bool" where
  "f64_is_nan w = (f64_exponent w = 2047 \<and> f64_fraction w \<noteq> 0)"

definition f64_is_inf :: "f64 \<Rightarrow> bool" where
  "f64_is_inf w = (f64_exponent w = 2047 \<and> f64_fraction w = 0)"

definition f64_scaled_mag :: "f64 \<Rightarrow> nat" where
  \<comment> \<open>the magnitude in units of \<open>2 ^ -1074\<close>: subnormal numbers have exponent field 0 and no
      hidden bit. An infinity gets \<open>2 ^ 2098\<close>, that is \<open>2 ^ 1024\<close>, above every finite
      magnitude.\<close>
  "f64_scaled_mag w =
     (if f64_exponent w = 0 then f64_fraction w
      else (2 ^ 52 + f64_fraction w) * 2 ^ (f64_exponent w - 1))"

definition f64_scaled :: "f64 \<Rightarrow> int" where
  "f64_scaled w = (if f64_sign w then - int (f64_scaled_mag w) else int (f64_scaled_mag w))"

definition f64_value :: "f64 \<Rightarrow> real" where
  \<comment> \<open>the number a finite bit pattern denotes\<close>
  "f64_value w = real_of_int (f64_scaled w) / 2 ^ 1074"

text \<open>
  Python's comparisons of floats: by value, both zeros equal, every comparison with a NaN
  false, the infinities beyond all finite values.
\<close>

definition f64_lt :: "f64 \<Rightarrow> f64 \<Rightarrow> bool" where
  "f64_lt a b = (\<not> f64_is_nan a \<and> \<not> f64_is_nan b \<and> f64_scaled a < f64_scaled b)"

definition f64_le :: "f64 \<Rightarrow> f64 \<Rightarrow> bool" where
  "f64_le a b = (\<not> f64_is_nan a \<and> \<not> f64_is_nan b \<and> f64_scaled a \<le> f64_scaled b)"

definition f64_eq :: "f64 \<Rightarrow> f64 \<Rightarrow> bool" where
  "f64_eq a b = (\<not> f64_is_nan a \<and> \<not> f64_is_nan b \<and> f64_scaled a = f64_scaled b)"

definition f64_gt :: "f64 \<Rightarrow> f64 \<Rightarrow> bool" where
  "f64_gt a b = f64_lt b a"

definition f64_neg_inf :: f64 where
  "f64_neg_inf = 0xFFF0000000000000"

definition f64_neg_min_subnormal :: f64 where
  "f64_neg_min_subnormal = 0x8000000000000001"

definition np_nextafter_neg_inf :: "f64 \<Rightarrow> f64" where
  \<comment> \<open>Modelled from the spec: \<^verbatim>\<open>np.nextafter(x, float('-inf'))\<close> belongs to numpy, not to
      this repository; the spec calls it "the next representable value below" its argument.
      On the bit pattern: a NaN stays a NaN, minus infinity stays, both zeros go to the
      negative number of least magnitude, a positive pattern is decremented, a negative one
      incremented.\<close>
  "np_nextafter_neg_inf x =
     (if f64_is_nan x then x
      else if x = f64_neg_inf then x
      else if f64_mag x = 0 then f64_neg_min_subnormal
      else if \<not> f64_sign x then x - 1
      else x + 1)"

definition py_max :: "f64 \<Rightarrow> f64 \<Rightarrow> f64" where
  \<comment> \<open>Python's \<^verbatim>\<open>max(a, b)\<close>: the first argument unless the second is greater\<close>
  "py_max a b = (if f64_gt b a then b else a)"

subsection \<open>Parameter values, errors, distributions\<close>

datatype pyval = Num real | Str string

datatype error =
    NotImplementedError
  | ZeroDivisionError
  | TypeError
  | KeyError
  | AssertionError

text \<open>
  Python computes with floats and rounds. The module uses four operations on numbers:
  \<^verbatim>\<open>-\<close>, \<^verbatim>\<open>//\<close>, \<^verbatim>\<open>*\<close> and \<^verbatim>\<open>+\<close>. What they return on two numbers is the
  interpreter's business and is a parameter \<open>P\<close> of every function below; nothing is
  assumed about it. A floor division by zero raises \<^verbatim>\<open>ZeroDivisionError\<close>, whatever
  the dividend.
\<close>

record py_arith =
  num_sub :: "real \<Rightarrow> real \<Rightarrow> real"
  num_floordiv :: "real \<Rightarrow> real \<Rightarrow> real"
  num_mul :: "real \<Rightarrow> real \<Rightarrow> real"
  num_add :: "real \<Rightarrow> real \<Rightarrow> real"

definition py_floordiv :: "py_arith \<Rightarrow> real \<Rightarrow> real \<Rightarrow> error + real" where
  \<comment> \<open>\<^verbatim>\<open>a // b\<close>\<close>
  "py_floordiv P a b = (if b = 0 then Inl ZeroDivisionError else Inr (num_floordiv P a b))"

text \<open>
  The distribution classes the module tests with \<^verbatim>\<open>isinstance\<close>, with the fields it reads
  (\<^verbatim>\<open>low\<close>, \<^verbatim>\<open>high\<close>, \<^verbatim>\<open>q\<close>, \<^verbatim>\<open>choices\<close>). \<open>OtherDistribution\<close> stands for any
  further subclass of \<^verbatim>\<open>BaseDistribution\<close>, named by its class.
\<close>

datatype distribution =
    UniformDistribution f64 f64
  | LogUniformDistribution f64 f64
  | IntUniformDistribution int int
  | DiscreteUniformDistribution real real real
  | CategoricalDistribution "pyval list"
  | OtherDistribution string

fun is_CategoricalDistribution :: "distribution \<Rightarrow> bool" where
  "is_CategoricalDistribution (CategoricalDistribution choices) = True"
| "is_CategoricalDistribution _ = False"

fun is_supported :: "distribution \<Rightarrow> bool" where
  "is_supported (OtherDistribution cls) = False"
| "is_supported _ = True"

text \<open>
  The methods of a distribution that the module calls: \<^verbatim>\<open>single()\<close>,
  \<^verbatim>\<open>to_internal_repr(value)\<close> and \<^verbatim>\<open>_contains(value)\<close>. They are defined in
  \<^verbatim>\<open>optuna.distributions\<close>, which is not part of the module, so every function below takes
  them as a parameter \<open>M\<close>.
\<close>

record dist_methods =
  single :: "distribution \<Rightarrow> bool"
  to_internal_repr :: "distribution \<Rightarrow> pyval \<Rightarrow> pyval"
  contains :: "distribution \<Rightarrow> pyval \<Rightarrow> bool"

type_synonym search_space_t = "(string \<times> distribution) list"

datatype TrialState = RUNNING | COMPLETE | PRUNED | FAIL

datatype StudyDirection = MINIMIZE | MAXIMIZE

record FrozenTrial =
  state :: TrialState
  params :: "string \<rightharpoonup> pyval"
  trial_value :: "real option"

record InTrialStudy =
  trials :: "FrozenTrial list"
  direction :: StudyDirection

subsection \<open>The backend\<close>

datatype prior = uniform | log_uniform

datatype dimension =
    space_Real f64 f64 prior
  | space_Integer real real
  | space_Categorical "pyval list"

text \<open>
  The calls \<^verbatim>\<open>skopt.Optimizer\<close> receives: its constructor with the dimensions and the
  keyword arguments, \<^verbatim>\<open>tell(xs, ys)\<close> and \<^verbatim>\<open>ask()\<close>.
\<close>

datatype 'kw skopt_call =
    Construct "dimension list" 'kw
  | Tell "pyval list list" "real list"
  | Ask

record 'kw Optimizer =
  search_space :: search_space_t
  optimizer :: "'kw skopt_call list"

record 'kw SkoptSampler =
  skopt_kwargs :: 'kw
  warn_independent_sampling :: bool

subsection \<open>\<^verbatim>\<open>_Optimizer.__init__\<close>\<close>

definition sorted_items :: "search_space_t \<Rightarrow> search_space_t" where
  \<comment> \<open>\<^verbatim>\<open>sorted(self._search_space.items())\<close>: the keys are distinct, so the pairs are
      ordered by name\<close>
  "sorted_items space = sort_key fst space"

fun to_dimension :: "py_arith \<Rightarrow> distribution \<Rightarrow> error + dimension" where
  "to_dimension P (UniformDistribution low high) =
     (let high' = py_max low (np_nextafter_neg_inf high)
      in Inr (space_Real low high' uniform))"
| "to_dimension P (LogUniformDistribution low high) =
     (let high' = py_max low (np_nextafter_neg_inf high)
      in Inr (space_Real low high' log_uniform))"
| "to_dimension P (IntUniformDistribution low high) =
     Inr (space_Integer (of_int low) (of_int high))"
| "to_dimension P (DiscreteUniformDistribution low high q) =
     (case py_floordiv P (num_sub P high low) q of
        Inl e \<Rightarrow> Inl e
      | Inr count \<Rightarrow> Inr (space_Integer 0 count))"
| "to_dimension P (CategoricalDistribution choices) = Inr (space_Categorical choices)"
| "to_dimension P (OtherDistribution cls) = Inl NotImplementedError"

fun init_loop :: "py_arith \<Rightarrow> search_space_t \<Rightarrow> dimension list \<Rightarrow> error + dimension list" where
  "init_loop P [] dimensions = Inr dimensions"
| "init_loop P ((name, distribution) # rest) dimensions =
     (case to_dimension P distribution of
        Inl e \<Rightarrow> Inl e
      | Inr dimension \<Rightarrow> init_loop P rest (dimensions @ [dimension]))"

definition Optimizer_init :: "py_arith \<Rightarrow> search_space_t \<Rightarrow> 'kw \<Rightarrow> error + 'kw Optimizer" where
  "Optimizer_init P space kwargs =
     (case init_loop P (sorted_items space) [] of
        Inl e \<Rightarrow> Inl e
      | Inr dimensions \<Rightarrow>
          Inr \<lparr>search_space = space, optimizer = [Construct dimensions kwargs]\<rparr>)"

subsection \<open>\<^verbatim>\<open>_Optimizer._is_compatible\<close>\<close>

fun is_compatible_loop :: "dist_methods \<Rightarrow> search_space_t \<Rightarrow> FrozenTrial \<Rightarrow> bool" where
  "is_compatible_loop M [] trial = True"
| "is_compatible_loop M ((name, distribution) # rest) trial =
     (case params trial name of
        None \<Rightarrow> False
      | Some param_value \<Rightarrow>
          (let param_internal_value = to_internal_repr M distribution param_value
           in if \<not> contains M distribution param_internal_value then False
              else is_compatible_loop M rest trial))"

definition is_compatible :: "dist_methods \<Rightarrow> 'kw Optimizer \<Rightarrow> FrozenTrial \<Rightarrow> bool" where
  "is_compatible M self trial = is_compatible_loop M (search_space self) trial"

subsection \<open>\<^verbatim>\<open>_Optimizer._complete_trial_to_skopt_observation\<close>\<close>

definition discrete_encode :: "py_arith \<Rightarrow> real \<Rightarrow> real \<Rightarrow> pyval \<Rightarrow> error + pyval" where
  \<comment> \<open>\<^verbatim>\<open>(param_value - distribution.low) // distribution.q\<close>\<close>
  "discrete_encode P low q param_value =
     (case param_value of
        Str s \<Rightarrow> Inl TypeError
      | Num v \<Rightarrow>
          (case py_floordiv P (num_sub P v low) q of
             Inl e \<Rightarrow> Inl e
           | Inr n \<Rightarrow> Inr (Num n)))"

fun encode_value :: "py_arith \<Rightarrow> distribution \<Rightarrow> pyval \<Rightarrow> error + pyval" where
  "encode_value P (DiscreteUniformDistribution low high q) param_value =
     discrete_encode P low q param_value"
| "encode_value P _ param_value = Inr param_value"

fun observation_loop ::
  "py_arith \<Rightarrow> search_space_t \<Rightarrow> FrozenTrial \<Rightarrow> pyval list \<Rightarrow> error + pyval list" where
  "observation_loop P [] trial param_values = Inr param_values"
| "observation_loop P ((name, distribution) # rest) trial param_values =
     (case params trial name of
        None \<Rightarrow> Inl KeyError
      | Some param_value \<Rightarrow>
          (case encode_value P distribution param_value of
             Inl e \<Rightarrow> Inl e
           | Inr v \<Rightarrow> observation_loop P rest trial (param_values @ [v])))"

definition complete_trial_to_skopt_observation ::
  "py_arith \<Rightarrow> 'kw Optimizer \<Rightarrow> InTrialStudy \<Rightarrow> FrozenTrial \<Rightarrow> error + (pyval list \<times> real)" where
  "complete_trial_to_skopt_observation P self study trial =
     (case observation_loop P (sorted_items (search_space self)) trial [] of
        Inl e \<Rightarrow> Inl e
      | Inr param_values \<Rightarrow>
          (case trial_value trial of
             None \<Rightarrow> Inl AssertionError
           | Some v \<Rightarrow>
               Inr (param_values, if direction study = MAXIMIZE then - v else v)))"

subsection \<open>\<^verbatim>\<open>_Optimizer.tell\<close>\<close>

fun tell_loop ::
  "dist_methods \<Rightarrow> py_arith \<Rightarrow> 'kw Optimizer \<Rightarrow> InTrialStudy \<Rightarrow> FrozenTrial list \<Rightarrow>
   pyval list list \<Rightarrow> real list \<Rightarrow> error + (pyval list list \<times> real list)" where
  "tell_loop M P self study [] xs ys = Inr (xs, ys)"
| "tell_loop M P self study (trial # rest) xs ys =
     (if state trial \<noteq> COMPLETE then tell_loop M P self study rest xs ys
      else if \<not> is_compatible M self trial then tell_loop M P self study rest xs ys
      else (case complete_trial_to_skopt_observation P self study trial of
              Inl e \<Rightarrow> Inl e
            | Inr (x, y) \<Rightarrow> tell_loop M P self study rest (xs @ [x]) (ys @ [y])))"

definition tell ::
  "dist_methods \<Rightarrow> py_arith \<Rightarrow> 'kw Optimizer \<Rightarrow> InTrialStudy \<Rightarrow> error + 'kw Optimizer" where
  "tell M P self study =
     (case tell_loop M P self study (trials study) [] [] of
        Inl e \<Rightarrow> Inl e
      | Inr (xs, ys) \<Rightarrow> Inr (self\<lparr>optimizer := optimizer self @ [Tell xs ys]\<rparr>))"

subsection \<open>\<^verbatim>\<open>_Optimizer.ask\<close>\<close>

definition discrete_decode :: "py_arith \<Rightarrow> real \<Rightarrow> real \<Rightarrow> pyval \<Rightarrow> error + pyval" where
  \<comment> \<open>\<^verbatim>\<open>value * distribution.q + distribution.low\<close>\<close>
  "discrete_decode P low q v =
     (case v of
        Str s \<Rightarrow> Inl TypeError
      | Num b \<Rightarrow> Inr (Num (num_add P (num_mul P b q) low)))"

fun decode_value :: "py_arith \<Rightarrow> distribution \<Rightarrow> pyval \<Rightarrow> error + pyval" where
  "decode_value P (DiscreteUniformDistribution low high q) v = discrete_decode P low q v"
| "decode_value P _ v = Inr v"

fun ask_loop ::
  "dist_methods \<Rightarrow> py_arith \<Rightarrow> ((string \<times> distribution) \<times> pyval) list \<Rightarrow> (string \<times> pyval) list \<Rightarrow>
   error + (string \<times> pyval) list" where
  "ask_loop M P [] result = Inr result"
| "ask_loop M P (((name, distribution), v) # rest) result =
     (case decode_value P distribution v of
        Inl e \<Rightarrow> Inl e
      | Inr v' \<Rightarrow>
          ask_loop M P rest (AList.update name (to_internal_repr M distribution v') result))"

text \<open>
  What \<^verbatim>\<open>self._optimizer.ask()\<close> returns is the backend's business: \<open>skopt_ask\<close> gives the
  proposed point as a function of the calls the backend has received so far.
\<close>

definition ask ::
  "dist_methods \<Rightarrow> py_arith \<Rightarrow> ('kw skopt_call list \<Rightarrow> pyval list) \<Rightarrow> 'kw Optimizer \<Rightarrow>
   error + ((string \<times> pyval) list \<times> 'kw Optimizer)" where
  "ask M P skopt_ask self =
     (let param_values = skopt_ask (optimizer self);
          self' = self\<lparr>optimizer := optimizer self @ [Ask]\<rparr>
      in case ask_loop M P (zip (sorted_items (search_space self)) param_values) [] of
           Inl e \<Rightarrow> Inl e
         | Inr result \<Rightarrow> Inr (result, self'))"

subsection \<open>\<^verbatim>\<open>SkoptSampler\<close>\<close>

fun infer_loop :: "dist_methods \<Rightarrow> search_space_t \<Rightarrow> search_space_t \<Rightarrow> search_space_t" where
  "infer_loop M [] space = space"
| "infer_loop M ((name, distribution) # rest) space =
     (if single M distribution \<and> \<not> is_CategoricalDistribution distribution
      then infer_loop M rest space
      else infer_loop M rest (AList.update name distribution space))"

text \<open>
  \<^verbatim>\<open>samplers.product_search_space(study)\<close> is optuna's intersection of the distributions of
  the trials; it is a parameter.
\<close>

definition infer_relative_search_space ::
  "dist_methods \<Rightarrow> (InTrialStudy \<Rightarrow> search_space_t) \<Rightarrow> InTrialStudy \<Rightarrow> search_space_t" where
  "infer_relative_search_space M product_search_space study =
     infer_loop M (product_search_space study) []"

text \<open>
  \<^verbatim>\<open>sample_relative\<close> returns the sampled parameters; the second component is the list of
  the calls the backend received during the call.
\<close>

definition sample_relative ::
  "dist_methods \<Rightarrow> py_arith \<Rightarrow> ('kw skopt_call list \<Rightarrow> pyval list) \<Rightarrow> 'kw SkoptSampler \<Rightarrow>
   InTrialStudy \<Rightarrow> search_space_t \<Rightarrow> error + ((string \<times> pyval) list \<times> 'kw skopt_call list)" where
  "sample_relative M P skopt_ask self study space =
     (if length space = 0 then Inr ([], [])
      else (case Optimizer_init P space (skopt_kwargs self) of
              Inl e \<Rightarrow> Inl e
            | Inr opt \<Rightarrow>
                (case tell M P opt study of
                   Inl e \<Rightarrow> Inl e
                 | Inr opt' \<Rightarrow>
                     (case ask M P skopt_ask opt' of
                        Inl e \<Rightarrow> Inl e
                      | Inr (result, opt'') \<Rightarrow> Inr (result, optimizer opt'')))))"

section \<open>Auxiliary definitions\<close>

subsection \<open>Notions used to state the properties\<close>

text \<open>
  \<open>collect\<close> runs a list of results in order: the first error, or all the values. A loop of
  the module that may raise in its body computes the \<open>collect\<close> of its iterations.
\<close>

fun collect :: "('e + 'a) list \<Rightarrow> 'e + 'a list" where
  "collect [] = Inr []"
| "collect (Inl e # rs) = Inl e"
| "collect (Inr a # rs) = (case collect rs of Inl e \<Rightarrow> Inl e | Inr as \<Rightarrow> Inr (a # as))"

definition replayed :: "dist_methods \<Rightarrow> 'kw Optimizer \<Rightarrow> FrozenTrial \<Rightarrow> bool" where
  \<comment> \<open>the trials that pass both guards of the loop of \<^verbatim>\<open>tell\<close>\<close>
  "replayed M self trial = (state trial = COMPLETE \<and> is_compatible M self trial)"

fun observe_param ::
  "py_arith \<Rightarrow> FrozenTrial \<Rightarrow> string \<times> distribution \<Rightarrow> error + pyval" where
  \<comment> \<open>one iteration of the loop of \<^verbatim>\<open>_complete_trial_to_skopt_observation\<close>\<close>
  "observe_param P trial (name, d) =
     (case params trial name of None \<Rightarrow> Inl KeyError | Some v \<Rightarrow> encode_value P d v)"

fun decode_item :: "py_arith \<Rightarrow> (string \<times> distribution) \<times> pyval \<Rightarrow> error + pyval" where
  \<comment> \<open>the rescaling step of one iteration of the loop of \<^verbatim>\<open>ask\<close>\<close>
  "decode_item P ((name, d), b) = decode_value P d b"

definition scripted :: "pyval list \<Rightarrow> 'kw skopt_call list \<Rightarrow> pyval list" where
  \<comment> \<open>a backend that proposes a fixed point, whatever it has been told\<close>
  "scripted point calls = point"

definition exact_arith :: py_arith where
  \<comment> \<open>arithmetic without rounding. Python's operations return the exact result whenever
      that is a float, as it is for integers of moderate size: the instance is used to
      evaluate the functions on such numbers only.\<close>
  "exact_arith =
     \<lparr>num_sub = (\<lambda>a b. a - b), num_floordiv = (\<lambda>a b. of_int \<lfloor>a / b\<rfloor>),
      num_mul = (\<lambda>a b. a * b), num_add = (\<lambda>a b. a + b)\<rparr>"

definition f64_key :: "f64 \<Rightarrow> int" where
  \<comment> \<open>the bit pattern as a signed integer: sign and magnitude\<close>
  "f64_key w = (if f64_sign w then - int (f64_mag w) else int (f64_mag w))"

definition scale_mag :: "nat \<Rightarrow> nat" where
  \<comment> \<open>\<open>f64_scaled_mag\<close> as a function of the 63-bit magnitude\<close>
  "scale_mag n =
     (if n div 2 ^ 52 = 0 then n mod 2 ^ 52
      else (2 ^ 52 + n mod 2 ^ 52) * 2 ^ (n div 2 ^ 52 - 1))"

definition scale_key :: "int \<Rightarrow> int" where
  \<comment> \<open>\<open>f64_scaled\<close> as a function of \<open>f64_key\<close>\<close>
  "scale_key k = (if k < 0 then - int (scale_mag (nat (- k))) else int (scale_mag (nat k)))"

subsection \<open>The methods of the distributions\<close>

text \<open>
  Modelled from the spec: the module \<^verbatim>\<open>optuna.distributions\<close> is missing. The spec gives a
  distribution the operations "contains(internal_value) -> bool", "to_internal(external_value)
  -> numeric" and "to_external(internal_value) -> value", the continuous distributions the
  bounds \<open>[low, high)\<close>, the integer distribution an inclusive range, the stepped
  distribution the values \<open>low, low + step, \<dots> \<le> high\<close>, the categorical one an ordered
  sequence of choices, and calls a distribution single-valued when it has one value only. The
  internal value of a choice is its position in the sequence; the other distributions keep
  the value. The general properties below hold for every \<open>M\<close>; this instance is used
  where a property is evaluated on concrete data.
\<close>

fun index_of :: "'a \<Rightarrow> 'a list \<Rightarrow> nat" where
  \<comment> \<open>the position of the first occurrence (the length of the list when there is none)\<close>
  "index_of x [] = 0"
| "index_of x (y # ys) = (if x = y then 0 else Suc (index_of x ys))"

fun spec_single :: "distribution \<Rightarrow> bool" where
  \<comment> \<open>Modelled from the spec: "single-valued"\<close>
  "spec_single (UniformDistribution low high) = f64_eq low high"
| "spec_single (LogUniformDistribution low high) = f64_eq low high"
| "spec_single (IntUniformDistribution low high) = (low = high)"
| "spec_single (DiscreteUniformDistribution low high q) = (low \<le> high \<and> high < low + q)"
| "spec_single (CategoricalDistribution choices) = (length choices = 1)"
| "spec_single (OtherDistribution cls) = False"

fun spec_to_internal :: "distribution \<Rightarrow> pyval \<Rightarrow> pyval" where
  \<comment> \<open>Modelled from the spec: "to_internal(external_value) -> numeric"\<close>
  "spec_to_internal (CategoricalDistribution choices) v = Num (of_nat (index_of v choices))"
| "spec_to_internal _ v = v"

fun spec_to_external :: "distribution \<Rightarrow> pyval \<Rightarrow> pyval" where
  \<comment> \<open>Modelled from the spec: "to_external(internal_value) -> value"\<close>
  "spec_to_external (CategoricalDistribution choices) (Num i) =
     (if 0 \<le> i \<and> i < of_nat (length choices) then choices ! nat \<lfloor>i\<rfloor> else Num i)"
| "spec_to_external _ v = v"

fun spec_contains :: "distribution \<Rightarrow> pyval \<Rightarrow> bool" where
  \<comment> \<open>Modelled from the spec: "contains(internal_value) -> bool"\<close>
  "spec_contains (UniformDistribution low high) (Num v) =
     (f64_value low \<le> v \<and> v < f64_value high)"
| "spec_contains (LogUniformDistribution low high) (Num v) =
     (f64_value low \<le> v \<and> v < f64_value high)"
| "spec_contains (IntUniformDistribution low high) (Num v) =
     (of_int low \<le> v \<and> v \<le> of_int high)"
| "spec_contains (DiscreteUniformDistribution low high q) (Num v) = (low \<le> v \<and> v \<le> high)"
| "spec_contains (CategoricalDistribution choices) (Num i) =
     (0 \<le> i \<and> i < of_nat (length choices))"
| "spec_contains _ _ = False"

definition spec_methods :: dist_methods where
  \<comment> \<open>Modelled from the spec: the three methods the module calls\<close>
  "spec_methods =
     \<lparr>single = spec_single, to_internal_repr = spec_to_internal, contains = spec_contains\<rparr>"

section \<open>Lemmas\<close>

subsection \<open>Sequencing of results\<close>

lemma collect_Inr_iff:
  "collect rs = Inr as \<longleftrightarrow> rs = map Inr as"
proof (induction rs arbitrary: as)
  case Nil
  then show ?case by auto
next
  case (Cons r rs)
  show ?case
  proof (cases r)
    case (Inl e)
    then show ?thesis by auto
  next
    case (Inr a)
    show ?thesis
    proof (cases as)
      case Nil
      then show ?thesis by (simp add: Inr split: sum.splits)
    next
      case (Cons a' as')
      then show ?thesis
        using Cons.IH [of as'] by (auto simp: Inr split: sum.splits)
    qed
  qed
qed

lemma collect_Inl_mem: "collect rs = Inl e \<Longrightarrow> Inl e \<in> set rs"
proof (induction rs)
  case Nil
  then show ?case by simp
next
  case (Cons r rs)
  then show ?case by (cases r) (auto split: sum.splits)
qed

lemma collect_cases: "(\<exists>e. collect rs = Inl e \<and> Inl e \<in> set rs) \<or> (\<exists>as. collect rs = Inr as \<and> rs = map Inr as)"
  by (cases "collect rs") (auto simp: collect_Inr_iff dest: collect_Inl_mem)

lemma collect_all_Inr:
  "(\<And>r. r \<in> set rs \<Longrightarrow> \<exists>a. r = Inr a) \<Longrightarrow> \<exists>as. collect rs = Inr as"
proof -
  assume ok: "\<And>r. r \<in> set rs \<Longrightarrow> \<exists>a. r = Inr a"
  show ?thesis
  proof (cases "collect rs")
    case (Inl e)
    from collect_Inl_mem [OF Inl] ok show ?thesis by blast
  next
    case (Inr as)
    then show ?thesis by blast
  qed
qed

lemma collect_first_error:
  "collect rs = Inl e \<Longrightarrow> \<exists>i<length rs. rs ! i = Inl e \<and> (\<forall>j<i. \<exists>a. rs ! j = Inr a)"
proof (induction rs)
  case Nil
  then show ?case by simp
next
  case (Cons r rs)
  show ?case
  proof (cases r)
    case (Inl e')
    with Cons.prems show ?thesis by auto
  next
    case (Inr a)
    with Cons.prems have "collect rs = Inl e"
      by (simp split: sum.splits)
    from Cons.IH [OF this] obtain i
      where i: "i < length rs" "rs ! i = Inl e" "\<forall>j<i. \<exists>a. rs ! j = Inr a"
      by blast
    have "\<forall>j<Suc i. \<exists>a'. (r # rs) ! j = Inr a'"
    proof (intro allI impI)
      fix j
      assume "j < Suc i"
      then show "\<exists>a'. (r # rs) ! j = Inr a'"
        using i(3) Inr by (cases j) auto
    qed
    with i(1,2) show ?thesis
      by (intro exI [of _ "Suc i"]) simp
  qed
qed

lemma collect_sorted_first_error:
  assumes sorted: "sorted (map fst items)"
    and mem: "(name, d) \<in> set items"
    and err: "f d = Inl e"
    and others: "\<forall>(n', d') \<in> set items. \<forall>e'. f d' = Inl e' \<longrightarrow> e' \<noteq> e \<longrightarrow> name < n'"
  shows "collect (map (f \<circ> snd) items) = Inl e"
proof -
  let ?rs = "map (f \<circ> snd) items"
  from mem obtain i where i: "i < length items" "items ! i = (name, d)"
    by (auto simp: in_set_conv_nth)
  then have ri: "?rs ! i = Inl e"
    using err by simp
  have "?rs \<noteq> map Inr as" for as
  proof
    assume "?rs = map Inr as"
    then have "?rs ! i = map Inr as ! i" "length as = length items"
      by (simp_all add: map_eq_imp_length_eq [of "f \<circ> snd" items Inr as, symmetric])
    with ri i(1) show False by simp
  qed
  with collect_cases [of ?rs] obtain e0 where e0: "collect ?rs = Inl e0"
    by blast
  from collect_first_error [OF e0] obtain k
    where k: "k < length items" "?rs ! k = Inl e0" "\<forall>j<k. \<exists>a. ?rs ! j = Inr a"
    by auto
  have ki: "k \<le> i"
  proof (rule ccontr)
    assume "\<not> k \<le> i"
    then have "i < k" by simp
    with k(3) ri show False by auto
  qed
  obtain n' d' where item: "items ! k = (n', d')"
    by (cases "items ! k")
  with k(1,2) have fd: "f d' = Inl e0" and in_set: "(n', d') \<in> set items"
    by (auto simp: in_set_conv_nth)
  have "n' \<le> name"
    using sorted_nth_mono [OF sorted, of k i] ki i item k(1) by simp
  with others in_set fd have "e0 = e"
    by (cases "e0 = e") auto
  with e0 show ?thesis by simp
qed

lemma map_eq_list_all2: "map f xs = map g ys \<Longrightarrow> list_all2 (\<lambda>x y. f x = g y) xs ys"
  by (induction xs arbitrary: ys) auto

subsection \<open>The sorted items\<close>

lemma set_sorted_items: "set (sorted_items space) = set space"
  by (simp add: sorted_items_def)

lemma length_sorted_items: "length (sorted_items space) = length space"
  by (simp add: sorted_items_def)

lemma sorted_names: "sorted (map fst (sorted_items space))"
  by (simp add: sorted_items_def)

lemma map_fst_insort_key: "map fst (insort_key fst x xs) = insort (fst x) (map fst xs)"
  by (induction xs) auto

lemma map_fst_sort_key: "map fst (sort_key fst xs) = sort (map fst xs)"
  by (induction xs) (auto simp: map_fst_insort_key)

lemma distinct_sorted_items:
  "distinct (map fst space) \<Longrightarrow> distinct (map fst (sorted_items space))"
  by (simp add: sorted_items_def map_fst_sort_key)

lemma update_fresh:
  "name \<notin> fst ` set acc \<Longrightarrow> AList.update name v acc = acc @ [(name, v)]"
  by (induction acc) auto

subsection \<open>The constructor\<close>

lemma init_loop_collect:
  "init_loop P items acc =
     (case collect (map (to_dimension P \<circ> snd) items) of
        Inl e \<Rightarrow> Inl e
      | Inr dims \<Rightarrow> Inr (acc @ dims))"
proof (induction items arbitrary: acc)
  case Nil
  then show ?case by simp
next
  case (Cons item items)
  obtain name d where item: "item = (name, d)" by (cases item)
  show ?case
  proof (cases "to_dimension P d")
    case (Inl e)
    then show ?thesis by (simp add: item)
  next
    case (Inr dim)
    then show ?thesis
      by (simp add: item Cons.IH split: sum.splits)
  qed
qed

lemma to_dimension_error:
  "to_dimension P d = Inl e \<Longrightarrow>
     (e = NotImplementedError \<and> \<not> is_supported d) \<or>
     (e = ZeroDivisionError \<and> (\<exists>low high. d = DiscreteUniformDistribution low high 0))"
  by (cases d) (auto simp: Let_def py_floordiv_def split: if_splits sum.splits)

lemma to_dimension_unsupported: "\<not> is_supported d \<Longrightarrow> to_dimension P d = Inl NotImplementedError"
  by (cases d) auto

lemma Optimizer_init_collect:
  "Optimizer_init P space kwargs =
     (case collect (map (to_dimension P \<circ> snd) (sorted_items space)) of
        Inl e \<Rightarrow> Inl e
      | Inr dims \<Rightarrow> Inr \<lparr>search_space = space, optimizer = [Construct dims kwargs]\<rparr>)"
  by (simp add: Optimizer_init_def init_loop_collect split: sum.splits)

lemma unsupported_never_built:
  assumes "(name, d) \<in> set space" and "\<not> is_supported d"
  shows "(\<exists>e. Optimizer_init P space kwargs = Inl e) \<and>
         ((\<forall>n low high q. (n, DiscreteUniformDistribution low high q) \<in> set space \<longrightarrow> q \<noteq> 0) \<longrightarrow>
          Optimizer_init P space kwargs = Inl NotImplementedError)"
proof -
  let ?rs = "map (to_dimension P \<circ> snd) (sorted_items space)"
  have bad: "Inl NotImplementedError \<in> set ?rs"
    using assms to_dimension_unsupported [of d P]
    by (force simp: set_sorted_items)
  have no_dims: "?rs \<noteq> map Inr dims" for dims
  proof
    assume "?rs = map Inr dims"
    with bad have "Inl NotImplementedError \<in> set (map Inr dims)"
      by simp
    then show False by auto
  qed
  from collect_cases [of ?rs] no_dims
  obtain e where e: "collect ?rs = Inl e" and mem: "Inl e \<in> set ?rs"
    by blast
  from mem obtain n d' where item: "(n, d') \<in> set space" and err: "to_dimension P d' = Inl e"
    by (auto simp: set_sorted_items)
  have first: "\<exists>e. Optimizer_init P space kwargs = Inl e"
    using e by (simp add: Optimizer_init_collect)
  have second: "Optimizer_init P space kwargs = Inl NotImplementedError"
    if steps: "\<forall>n low high q. (n, DiscreteUniformDistribution low high q) \<in> set space \<longrightarrow> q \<noteq> 0"
  proof -
    from to_dimension_error [OF err] steps item have "e = NotImplementedError"
      by blast
    then show ?thesis
      using e by (simp add: Optimizer_init_collect)
  qed
  from first second show ?thesis by blast
qed

lemma Optimizer_init_first_error:
  assumes "(name, d) \<in> set space"
    and "to_dimension P d = Inl e"
    and "\<forall>(n', d') \<in> set space. \<forall>e'. to_dimension P d' = Inl e' \<longrightarrow> e' \<noteq> e \<longrightarrow> name < n'"
  shows "Optimizer_init P space kwargs = Inl e"
proof -
  have "collect (map (to_dimension P \<circ> snd) (sorted_items space)) = Inl e"
    using assms
    by (intro collect_sorted_first_error [where name = name and d = d])
       (simp_all add: sorted_names set_sorted_items)
  then show ?thesis
    by (simp add: Optimizer_init_collect)
qed

lemma to_dimension_zero_step:
  "to_dimension P (DiscreteUniformDistribution low high 0) = Inl ZeroDivisionError"
  by (simp add: py_floordiv_def)

lemma Optimizer_init_Inr:
  assumes "Optimizer_init P space kwargs = Inr self"
  shows "search_space self = space"
    and "\<exists>dims. optimizer self = [Construct dims kwargs] \<and>
           map (to_dimension P \<circ> snd) (sorted_items space) = map Inr dims"
  using assms
  by (auto simp: Optimizer_init_collect collect_Inr_iff split: sum.splits)

lemma Optimizer_init_step_nonzero:
  assumes init: "Optimizer_init P space kwargs = Inr self"
    and item: "(name, DiscreteUniformDistribution low high q) \<in> set space"
  shows "q \<noteq> 0"
proof
  assume "q = 0"
  from Optimizer_init_Inr(2) [OF init] obtain dims
    where dims: "map (to_dimension P \<circ> snd) (sorted_items space) = map Inr dims"
    by blast
  from item have "to_dimension P (DiscreteUniformDistribution low high q)
      \<in> set (map (to_dimension P \<circ> snd) (sorted_items space))"
    by (force simp: set_sorted_items)
  with dims \<open>q = 0\<close> have "Inl ZeroDivisionError \<in> set (map Inr dims)"
    by (simp add: py_floordiv_def)
  then show False by auto
qed

subsection \<open>The search space of the sampler\<close>

lemma infer_loop_filter:
  "distinct (map fst items) \<Longrightarrow> fst ` set items \<inter> fst ` set acc = {} \<Longrightarrow>
   infer_loop M items acc =
     acc @ filter (\<lambda>(name, d). is_CategoricalDistribution d \<or> \<not> single M d) items"
proof (induction items arbitrary: acc)
  case Nil
  then show ?case by simp
next
  case (Cons item items)
  obtain name d where item: "item = (name, d)" by (cases item)
  from Cons.prems have fresh: "name \<notin> fst ` set acc"
    by (auto simp: item)
  from Cons.prems have d: "distinct (map fst items)"
    by simp
  show ?case
  proof (cases "single M d \<and> \<not> is_CategoricalDistribution d")
    case True
    moreover from Cons.prems have "fst ` set items \<inter> fst ` set acc = {}"
      by auto
    ultimately show ?thesis
      using Cons.IH [OF d, of acc] by (auto simp: item)
  next
    case False
    from Cons.prems have "fst ` set items \<inter> fst ` set (acc @ [(name, d)]) = {}"
      by (auto simp: item)
    with False show ?thesis
      using Cons.IH [OF d, of "acc @ [(name, d)]"] by (auto simp: item update_fresh [OF fresh])
  qed
qed

subsection \<open>Replay\<close>

lemma is_compatible_loop_iff:
  "is_compatible_loop M items trial \<longleftrightarrow>
     (\<forall>(name, d) \<in> set items.
        \<exists>v. params trial name = Some v \<and> contains M d (to_internal_repr M d v))"
  by (induction items) (auto simp: Let_def split: option.splits if_splits)

lemma is_compatible_iff:
  "is_compatible M self trial \<longleftrightarrow>
     (\<forall>(name, d) \<in> set (search_space self).
        \<exists>v. params trial name = Some v \<and> contains M d (to_internal_repr M d v))"
  by (simp add: is_compatible_def is_compatible_loop_iff)

lemma observation_loop_collect:
  "observation_loop P items trial acc =
     (case collect (map (observe_param P trial) items) of
        Inl e \<Rightarrow> Inl e
      | Inr vs \<Rightarrow> Inr (acc @ vs))"
proof (induction items arbitrary: acc)
  case Nil
  then show ?case by simp
next
  case (Cons item items)
  obtain name d where item: "item = (name, d)" by (cases item)
  show ?case
    by (cases "params trial name"; cases "encode_value P d (the (params trial name))")
       (auto simp: item Cons.IH split: sum.splits)
qed

lemma observation_direction:
  "direction study' = direction study \<Longrightarrow>
   complete_trial_to_skopt_observation P self study' trial =
   complete_trial_to_skopt_observation P self study trial"
  by (simp add: complete_trial_to_skopt_observation_def split: sum.splits option.splits)

lemma observation_Inr:
  assumes "complete_trial_to_skopt_observation P self study t = Inr (x, y)"
  shows "\<exists>v. trial_value t = Some v \<and> y = (if direction study = MAXIMIZE then - v else v)"
    and "map (observe_param P t) (sorted_items (search_space self)) = map Inr x"
  using assms
  by (auto simp: complete_trial_to_skopt_observation_def observation_loop_collect
      collect_Inr_iff split: sum.splits option.splits)

lemma observe_param_ok:
  assumes compat: "is_compatible M self t"
    and item: "(name, d) \<in> set (search_space self)"
    and nz: "\<And>low high q. d = DiscreteUniformDistribution low high q \<Longrightarrow> q \<noteq> 0"
    and num: "\<And>low high q s. d = DiscreteUniformDistribution low high q \<Longrightarrow>
                params t name \<noteq> Some (Str s)"
  shows "\<exists>v. observe_param P t (name, d) = Inr v"
proof -
  from compat item obtain pv where pv: "params t name = Some pv"
    by (auto simp: is_compatible_iff)
  show ?thesis
  proof (cases d)
    case (DiscreteUniformDistribution low high q)
    with nz num pv show ?thesis
      by (cases pv) (auto simp: discrete_encode_def py_floordiv_def)
  qed (simp_all add: pv)
qed

lemma observation_ok:
  assumes init: "Optimizer_init P space kwargs = Inr self"
    and compat: "is_compatible M self t"
    and val: "trial_value t = Some y"
    and num: "\<forall>name low high q s. (name, DiscreteUniformDistribution low high q) \<in> set space \<longrightarrow>
                params t name \<noteq> Some (Str s)"
  shows "\<exists>x. complete_trial_to_skopt_observation P self study t =
               Inr (x, if direction study = MAXIMIZE then - y else y)"
proof -
  have sp: "search_space self = space"
    by (rule Optimizer_init_Inr(1) [OF init])
  have "\<exists>a. r = Inr a" if "r \<in> set (map (observe_param P t) (sorted_items space))" for r
  proof -
    from that obtain name d where item: "(name, d) \<in> set space"
      and r: "r = observe_param P t (name, d)"
      by (auto simp: set_sorted_items)
    have "\<exists>v. observe_param P t (name, d) = Inr v"
    proof (rule observe_param_ok [OF compat])
      show "(name, d) \<in> set (search_space self)"
        using item sp by simp
      show "q \<noteq> 0" if "d = DiscreteUniformDistribution low high q" for low high q
        using Optimizer_init_step_nonzero [OF init] item that by blast
      show "params t name \<noteq> Some (Str s)"
        if "d = DiscreteUniformDistribution low high q" for low high q s
        using num item that by blast
    qed
    with r show ?thesis by simp
  qed
  from collect_all_Inr [OF this] obtain x
    where "collect (map (observe_param P t) (sorted_items space)) = Inr x"
    by blast
  then show ?thesis
    by (simp add: complete_trial_to_skopt_observation_def observation_loop_collect sp val)
qed

lemma tell_loop_collect:
  "tell_loop M P self study ts xs ys =
     (case collect (map (complete_trial_to_skopt_observation P self study)
                     (filter (replayed M self) ts)) of
        Inl e \<Rightarrow> Inl e
      | Inr obs \<Rightarrow> Inr (xs @ map fst obs, ys @ map snd obs))"
proof (induction ts arbitrary: xs ys)
  case Nil
  then show ?case by simp
next
  case (Cons t ts)
  show ?case
  proof (cases "replayed M self t")
    case False
    then show ?thesis
      by (auto simp: replayed_def Cons.IH)
  next
    case True
    then show ?thesis
      by (cases "complete_trial_to_skopt_observation P self study t")
         (auto simp: replayed_def Cons.IH split: sum.splits)
  qed
qed

lemma tell_collect:
  "tell M P self study =
     (case collect (map (complete_trial_to_skopt_observation P self study)
                     (filter (replayed M self) (trials study))) of
        Inl e \<Rightarrow> Inl e
      | Inr obs \<Rightarrow> Inr (self\<lparr>optimizer := optimizer self @ [Tell (map fst obs) (map snd obs)]\<rparr>))"
  by (simp add: tell_def tell_loop_collect split: sum.splits)

lemma tell_filter:
  "tell M P self study = tell M P self (study\<lparr>trials := filter (replayed M self) (trials study)\<rparr>)"
proof -
  have "complete_trial_to_skopt_observation P self
          (study\<lparr>trials := filter (replayed M self) (trials study)\<rparr>) =
        complete_trial_to_skopt_observation P self study"
    by (rule ext, rule observation_direction) simp
  then show ?thesis
    by (simp add: tell_collect)
qed

lemma tell_same_subset:
  assumes "direction study' = direction study"
    and "filter (replayed M self) (trials study') = filter (replayed M self) (trials study)"
  shows "tell M P self study' = tell M P self study"
proof -
  have "complete_trial_to_skopt_observation P self study' =
        complete_trial_to_skopt_observation P self study"
    by (rule ext, rule observation_direction) (rule assms(1))
  then show ?thesis
    using assms(2) by (simp add: tell_collect)
qed

lemma tell_Inr:
  assumes "tell M P self study = Inr self'"
  shows "\<exists>obs. self' = self\<lparr>optimizer := optimizer self @ [Tell (map fst obs) (map snd obs)]\<rparr> \<and>
           map (complete_trial_to_skopt_observation P self study)
             (filter (replayed M self) (trials study)) = map Inr obs"
  using assms
  by (auto simp: tell_collect collect_Inr_iff split: sum.splits)

subsection \<open>The proposed point\<close>

lemma ask_loop_collect:
  "distinct (map (fst \<circ> fst) zs) \<Longrightarrow> fst ` set acc \<inter> (fst \<circ> fst) ` set zs = {} \<Longrightarrow>
   ask_loop M P zs acc =
     (case collect (map (decode_item P) zs) of
        Inl e \<Rightarrow> Inl e
      | Inr vs \<Rightarrow>
          Inr (acc @ map (\<lambda>(((name, d), b), v). (name, to_internal_repr M d v)) (zip zs vs)))"
proof (induction zs arbitrary: acc)
  case Nil
  then show ?case by simp
next
  case (Cons z zs)
  obtain name d b where z: "z = ((name, d), b)" by (cases z) auto
  from Cons.prems have fresh: "name \<notin> fst ` set acc"
    by (auto simp: z)
  from Cons.prems have dist: "distinct (map (fst \<circ> fst) zs)"
    by (simp add: comp_def)
  show ?case
  proof (cases "decode_value P d b")
    case (Inl e)
    then show ?thesis by (simp add: z)
  next
    case (Inr v)
    let ?acc' = "acc @ [(name, to_internal_repr M d v)]"
    from Cons.prems have "fst ` set ?acc' \<inter> (fst \<circ> fst) ` set zs = {}"
      by (auto simp: z)
    from Cons.IH [OF dist this] Inr show ?thesis
      by (simp add: z update_fresh [OF fresh] split: sum.splits)
  qed
qed

lemma distinct_zip_names:
  assumes "distinct (map fst xs)"
  shows "distinct (map (fst \<circ> fst) (zip xs ys))"
proof -
  have "map (fst \<circ> fst) (zip xs ys) = map fst (map fst (zip xs ys))"
    by simp
  also have "\<dots> = map fst (take (min (length xs) (length ys)) xs)"
    by (simp only: map_fst_zip_take)
  also have "\<dots> = take (min (length xs) (length ys)) (map fst xs)"
    by (simp add: take_map)
  finally show ?thesis
    using assms by (simp add: distinct_take)
qed

lemma ask_collect:
  assumes "distinct (map fst (search_space self))"
  shows "ask M P skopt_ask self =
     (case collect (map (decode_item P)
                     (zip (sorted_items (search_space self)) (skopt_ask (optimizer self)))) of
        Inl e \<Rightarrow> Inl e
      | Inr vs \<Rightarrow>
          Inr (map (\<lambda>(((name, d), b), v). (name, to_internal_repr M d v))
                 (zip (zip (sorted_items (search_space self)) (skopt_ask (optimizer self))) vs),
               self\<lparr>optimizer := optimizer self @ [Ask]\<rparr>))"
proof -
  have "distinct (map (fst \<circ> fst)
          (zip (sorted_items (search_space self)) (skopt_ask (optimizer self))))"
    by (rule distinct_zip_names) (rule distinct_sorted_items [OF assms])
  from ask_loop_collect [OF this, of "[]" M] show ?thesis
    by (simp add: ask_def Let_def split: sum.splits)
qed

lemma decode_list_all2:
  "map (decode_item P) zs = map Inr vs \<Longrightarrow>
   list_all2
     (\<lambda>((name, d), b) (name', r).
        name' = name \<and> (\<exists>v. decode_value P d b = Inr v \<and> r = to_internal_repr M d v))
     zs (map (\<lambda>(((name, d), b), v). (name, to_internal_repr M d v)) (zip zs vs))"
proof (induction zs arbitrary: vs)
  case Nil
  then show ?case by simp
next
  case (Cons z zs)
  then show ?case by (cases vs) auto
qed

lemma ask_Inr:
  assumes "distinct (map fst (search_space self))"
    and "ask M P skopt_ask self = Inr (result, self')"
  shows "self' = self\<lparr>optimizer := optimizer self @ [Ask]\<rparr>"
    and "list_all2
          (\<lambda>((name, d), b) (name', r).
             name' = name \<and> (\<exists>v. decode_value P d b = Inr v \<and> r = to_internal_repr M d v))
          (zip (sorted_items (search_space self)) (skopt_ask (optimizer self))) result"
proof -
  let ?zs = "zip (sorted_items (search_space self)) (skopt_ask (optimizer self))"
  from assms(2) obtain vs where c: "map (decode_item P) ?zs = map Inr vs"
    and r: "result = map (\<lambda>(((name, d), b), v). (name, to_internal_repr M d v)) (zip ?zs vs)"
    and s: "self' = self\<lparr>optimizer := optimizer self @ [Ask]\<rparr>"
    by (auto simp: ask_collect [OF assms(1)] collect_Inr_iff split: sum.splits)
  show "self' = self\<lparr>optimizer := optimizer self @ [Ask]\<rparr>"
    by (rule s)
  show "list_all2
      (\<lambda>((name, d), b) (name', r).
         name' = name \<and> (\<exists>v. decode_value P d b = Inr v \<and> r = to_internal_repr M d v))
      ?zs result"
    unfolding r by (rule decode_list_all2 [OF c])
qed

lemma ask_ok:
  assumes "distinct (map fst (search_space self))"
    and ok: "\<forall>((name, d), b) \<in> set (zip (sorted_items (search_space self))
                                       (skopt_ask (optimizer self))).
               \<exists>v. decode_value P d b = Inr v"
  shows "\<exists>result. ask M P skopt_ask self =
           Inr (result, self\<lparr>optimizer := optimizer self @ [Ask]\<rparr>)"
proof -
  let ?zs = "zip (sorted_items (search_space self)) (skopt_ask (optimizer self))"
  have "\<exists>a. r = Inr a" if "r \<in> set (map (decode_item P) ?zs)" for r
    using that ok by auto
  from collect_all_Inr [OF this] obtain vs where "collect (map (decode_item P) ?zs) = Inr vs"
    by blast
  then show ?thesis
    by (simp add: ask_collect [OF assms(1)])
qed

subsection \<open>The order of the floats in the bit pattern\<close>

lemma top_bit_nat:
  fixes u K :: nat
  assumes "u < 2 * K"
  shows "odd (u div K) \<longleftrightarrow> K \<le> u"
    and "u = u mod K + (if K \<le> u then K else 0)"
proof -
  show "odd (u div K) \<longleftrightarrow> K \<le> u"
  proof (cases "K \<le> u")
    case True
    with assms have "u div K = 1"
      by (intro div_nat_eqI) auto
    with True show ?thesis by simp
  next
    case False
    then show ?thesis by simp
  qed
  show "u = u mod K + (if K \<le> u then K else 0)"
  proof (cases "K \<le> u")
    case True
    with assms have "u mod K = u - K"
      by (simp add: le_mod_geq)
    with True show ?thesis by simp
  next
    case False
    then show ?thesis by simp
  qed
qed

lemma f64_mag_mod: "f64_mag w = unat w mod 2 ^ 63"
proof -
  have "f64_mag w = take_bit 63 (unat w)"
    by (simp only: f64_mag_def unsigned_take_bit_eq)
  also have "\<dots> = unat w mod 2 ^ 63"
    by (rule take_bit_eq_mod)
  finally show ?thesis .
qed

lemma f64_mag_less: "f64_mag w < 2 ^ 63"
  by (simp only: f64_mag_mod) simp

lemma unat_f64_less: "unat (w :: f64) < 2 * 2 ^ 63"
  using unsigned_less [of w] by simp

lemma f64_sign_iff: "f64_sign w \<longleftrightarrow> 2 ^ 63 \<le> unat w"
proof -
  have "f64_sign w \<longleftrightarrow> bit (unat w) 63"
    by (simp only: f64_sign_def bit_unsigned_iff) simp
  also have "\<dots> \<longleftrightarrow> odd (unat w div 2 ^ 63)"
    by (simp only: bit_iff_odd)
  also have "\<dots> \<longleftrightarrow> 2 ^ 63 \<le> unat w"
    by (rule top_bit_nat(1) [OF unat_f64_less])
  finally show ?thesis .
qed

lemma unat_f64: "unat w = f64_mag w + (if f64_sign w then 2 ^ 63 else 0)"
  using top_bit_nat(2) [OF unat_f64_less, of w]
  by (simp only: f64_mag_mod f64_sign_iff)

lemma f64_scaled_mag_scale: "f64_scaled_mag w = scale_mag (f64_mag w)"
  by (simp only: f64_scaled_mag_def scale_mag_def f64_exponent_def f64_fraction_def)

lemma scale_less:
  fixes n m P :: nat
  assumes P: "0 < P" and nm: "n < m"
  shows "(if n div P = 0 then n mod P else (P + n mod P) * 2 ^ (n div P - 1))
       < (if m div P = 0 then m mod P else (P + m mod P) * 2 ^ (m div P - 1))"
proof -
  define e f e' f' where "e = n div P" and "f = n mod P" and "e' = m div P" and "f' = m mod P"
  have n: "n = e * P + f" and m: "m = e' * P + f'"
    by (simp_all add: e_def f_def e'_def f'_def)
  have f: "f < P" and f': "f' < P"
    using P by (simp_all add: f_def f'_def)
  have ee': "e \<le> e'"
    using nm by (simp add: e_def e'_def div_le_mono)
  have upper: "(if e = 0 then f else (P + f) * 2 ^ (e - 1)) < P * 2 ^ e"
  proof (cases "e = 0")
    case True
    with f show ?thesis by simp
  next
    case False
    then obtain k where k: "e = Suc k" by (cases e) auto
    have "(P + f) * 2 ^ k < (2 * P) * 2 ^ k"
      using f by (intro mult_strict_right_mono) auto
    then show ?thesis by (simp add: k)
  qed
  have goal: "(if e = 0 then f else (P + f) * 2 ^ (e - 1))
            < (if e' = 0 then f' else (P + f') * 2 ^ (e' - 1))"
  proof (cases "e = e'")
    case True
    with n m nm have ff': "f < f'" by simp
    show ?thesis
    proof (cases "e = 0")
      case True
      with \<open>e = e'\<close> ff' show ?thesis by simp
    next
      case False
      have "(P + f) * 2 ^ (e - 1) < (P + f') * 2 ^ (e - 1)"
        using ff' by (intro mult_strict_right_mono) auto
      with False \<open>e = e'\<close> show ?thesis by simp
    qed
  next
    case False
    with ee' have lt: "e < e'" by simp
    then obtain k where k: "e' = Suc k" and ek: "e \<le> k" by (cases e') auto
    have "P * 2 ^ e \<le> P * 2 ^ k"
      using ek by (intro mult_left_mono power_increasing) auto
    also have "\<dots> \<le> (P + f') * 2 ^ k"
      by (intro mult_right_mono) auto
    finally have "P * 2 ^ e \<le> (P + f') * 2 ^ (e' - 1)"
      by (simp add: k)
    with upper lt show ?thesis by simp
  qed
  then show ?thesis
    by (simp only: e_def f_def e'_def f'_def)
qed

lemma scale_mag_less: "n < m \<Longrightarrow> scale_mag n < scale_mag m"
  unfolding scale_mag_def by (rule scale_less) simp_all

lemma scale_mag_0: "scale_mag 0 = 0"
  by (simp add: scale_mag_def)

lemma f64_scaled_key: "f64_scaled w = scale_key (f64_key w)"
  by (auto simp: f64_scaled_def f64_key_def scale_key_def f64_scaled_mag_scale scale_mag_0)

lemma scale_key_less: "k < l \<Longrightarrow> scale_key k < scale_key l"
proof -
  assume kl: "k < l"
  have pos: "0 < scale_mag n" if "0 < n" for n
    using scale_mag_less [OF that] by (simp add: scale_mag_0)
  consider "k < 0" "l < 0" | "k < 0" "0 \<le> l" | "0 \<le> k"
    by linarith
  then show ?thesis
  proof cases
    case 1
    with kl have "nat (- l) < nat (- k)" by simp
    from scale_mag_less [OF this] 1 show ?thesis
      by (simp add: scale_key_def)
  next
    case 2
    then have "0 < nat (- k)" by simp
    from pos [OF this] 2 show ?thesis
      by (simp add: scale_key_def)
  next
    case 3
    with kl have "nat k < nat l" by simp
    from scale_mag_less [OF this] 3 kl show ?thesis
      by (simp add: scale_key_def)
  qed
qed

lemma strict_mono_scale_key: "strict_mono scale_key"
  by (rule strict_monoI) (rule scale_key_less)

lemma f64_scaled_less_iff: "f64_scaled a < f64_scaled b \<longleftrightarrow> f64_key a < f64_key b"
  by (simp only: f64_scaled_key strict_mono_less [OF strict_mono_scale_key])

lemma f64_scaled_le_iff: "f64_scaled a \<le> f64_scaled b \<longleftrightarrow> f64_key a \<le> f64_key b"
  by (simp only: f64_scaled_key strict_mono_less_eq [OF strict_mono_scale_key])

lemma f64_scaled_eq_iff: "f64_scaled a = f64_scaled b \<longleftrightarrow> f64_key a = f64_key b"
  by (simp only: f64_scaled_key strict_mono_eq [OF strict_mono_scale_key])

lemma top_field_nat:
  fixes n E P :: nat
  assumes "n < Suc E * P"
  shows "(n div P = E \<and> n mod P \<noteq> 0) \<longleftrightarrow> E * P < n"
proof
  assume a: "n div P = E \<and> n mod P \<noteq> 0"
  have "n = n div P * P + n mod P" by simp
  with a show "E * P < n" by simp
next
  assume b: "E * P < n"
  with assms have d: "n div P = E"
    by (intro div_nat_eqI) (simp_all add: mult.commute)
  have "n = n div P * P + n mod P" by simp
  with d b have "n mod P \<noteq> 0" by auto
  with d show "n div P = E \<and> n mod P \<noteq> 0" by simp
qed

lemma f64_is_nan_iff: "f64_is_nan w \<longleftrightarrow> 2047 * 2 ^ 52 < f64_mag w"
proof -
  have "f64_mag w < Suc 2047 * 2 ^ 52"
    using f64_mag_less [of w] by simp
  from top_field_nat [OF this] show ?thesis
    by (simp only: f64_is_nan_def f64_exponent_def f64_fraction_def)
qed

lemma f64_neg_inf_fields: "f64_sign f64_neg_inf" "f64_mag f64_neg_inf = 2047 * 2 ^ 52"
  by (simp_all add: f64_sign_iff f64_mag_mod f64_neg_inf_def)

lemma f64_neg_min_subnormal_fields:
  "f64_sign f64_neg_min_subnormal" "f64_mag f64_neg_min_subnormal = 1"
  by (simp_all add: f64_sign_iff f64_mag_mod f64_neg_min_subnormal_def)

lemma f64_eq_fields: "f64_sign a = f64_sign b \<Longrightarrow> f64_mag a = f64_mag b \<Longrightarrow> a = b"
proof -
  assume "f64_sign a = f64_sign b" "f64_mag a = f64_mag b"
  then have "unat a = unat b"
    by (simp only: unat_f64)
  then show "a = b"
    by (simp only: word_unat_eq_iff)
qed

lemma f64_lt_key: "f64_lt a b \<longleftrightarrow> \<not> f64_is_nan a \<and> \<not> f64_is_nan b \<and> f64_key a < f64_key b"
  by (simp only: f64_lt_def f64_scaled_less_iff)

lemma f64_lt_value:
  "f64_lt a b \<longleftrightarrow> \<not> f64_is_nan a \<and> \<not> f64_is_nan b \<and> f64_value a < f64_value b"
  by (simp add: f64_lt_def f64_value_def divide_less_cancel)

lemma f64_value_examples:
  "f64_value 0x3FF0000000000000 = 1"
  "f64_value 0x4024000000000000 = 10"
  "f64_value 0xC000000000000000 = - 2"
  "f64_value 0x0000000000000001 = 1 / 2 ^ 1074"
  by (simp_all add: f64_value_def f64_scaled_def f64_scaled_mag_def f64_exponent_def
      f64_fraction_def f64_sign_iff f64_mag_mod)

lemma f64_le_key: "f64_le a b \<longleftrightarrow> \<not> f64_is_nan a \<and> \<not> f64_is_nan b \<and> f64_key a \<le> f64_key b"
  by (simp only: f64_le_def f64_scaled_le_iff)

lemma f64_eq_key: "f64_eq a b \<longleftrightarrow> \<not> f64_is_nan a \<and> \<not> f64_is_nan b \<and> f64_key a = f64_key b"
  by (simp only: f64_eq_def f64_scaled_eq_iff)

lemma f64_key_lower: "\<not> f64_is_nan x \<Longrightarrow> - (2047 * 2 ^ 52) \<le> f64_key x"
  by (simp add: f64_is_nan_iff f64_key_def)

lemma f64_key_neg_inf: "f64_key f64_neg_inf = - (2047 * 2 ^ 52)"
  by (simp add: f64_key_def f64_neg_inf_fields)

subsection \<open>The next float below\<close>

lemma f64_pred_positive:
  assumes "\<not> f64_sign x" and "0 < f64_mag x"
  shows "\<not> f64_sign (x - 1)" and "f64_mag (x - 1) = f64_mag x - 1"
proof -
  from assms have u: "unat x = f64_mag x"
    by (simp add: unat_f64 [of x])
  with assms have "x \<noteq> 0"
    by auto
  then have u1: "unat (x - 1) = f64_mag x - 1"
    by (simp add: unat_minus_one u)
  have small: "f64_mag x - 1 < 2 ^ 63"
    using f64_mag_less [of x] by simp
  with u1 show "\<not> f64_sign (x - 1)"
    by (simp add: f64_sign_iff)
  from u1 small show "f64_mag (x - 1) = f64_mag x - 1"
    by (simp only: f64_mag_mod) simp
qed

lemma f64_succ_negative:
  assumes "f64_sign x" and "f64_mag x < 2047 * 2 ^ 52"
  shows "f64_sign (x + 1)" and "f64_mag (x + 1) = f64_mag x + 1"
proof -
  from assms have u: "unat x = f64_mag x + 2 ^ 63"
    by (simp add: unat_f64 [of x])
  have "unat x + unat (1 :: f64) < 2 ^ LENGTH(64)"
    using assms(2) by (simp add: u)
  then have "unat (x + 1) = unat x + unat (1 :: f64)"
    by (simp only: unat_add_lem)
  then have u1: "unat (x + 1) = f64_mag x + 1 + 2 ^ 63"
    by (simp add: u)
  then show "f64_sign (x + 1)"
    by (simp add: f64_sign_iff)
  have "(f64_mag x + 1 + 2 ^ 63) mod 2 ^ 63 = (f64_mag x + 1) mod 2 ^ 63"
    by (simp only: mod_add_self2)
  also have "\<dots> = f64_mag x + 1"
    using assms(2) by simp
  finally show "f64_mag (x + 1) = f64_mag x + 1"
    by (simp only: f64_mag_mod u1)
qed

lemma np_nextafter_key:
  assumes nan: "\<not> f64_is_nan x" and inf: "x \<noteq> f64_neg_inf"
  shows "\<not> f64_is_nan (np_nextafter_neg_inf x)"
    and "f64_key (np_nextafter_neg_inf x) = f64_key x - 1"
proof -
  from nan have bound: "f64_mag x \<le> 2047 * 2 ^ 52"
    by (simp add: f64_is_nan_iff)
  consider (zero) "f64_mag x = 0"
    | (pos) "0 < f64_mag x" "\<not> f64_sign x"
    | (neg) "0 < f64_mag x" "f64_sign x"
    by blast
  then have "\<not> f64_is_nan (np_nextafter_neg_inf x) \<and>
             f64_key (np_nextafter_neg_inf x) = f64_key x - 1"
  proof cases
    case zero
    with nan inf have "np_nextafter_neg_inf x = f64_neg_min_subnormal"
      by (simp add: np_nextafter_neg_inf_def)
    with zero show ?thesis
      by (simp add: f64_is_nan_iff f64_key_def f64_neg_min_subnormal_fields)
  next
    case pos
    with nan inf have r: "np_nextafter_neg_inf x = x - 1"
      by (simp add: np_nextafter_neg_inf_def)
    from f64_pred_positive [OF pos(2) pos(1)] pos bound show ?thesis
      by (simp add: r f64_is_nan_iff f64_key_def)
  next
    case neg
    with nan inf have r: "np_nextafter_neg_inf x = x + 1"
      by (simp add: np_nextafter_neg_inf_def)
    have "f64_mag x \<noteq> 2047 * 2 ^ 52"
    proof
      assume "f64_mag x = 2047 * 2 ^ 52"
      with neg have "x = f64_neg_inf"
        by (intro f64_eq_fields) (simp_all add: f64_neg_inf_fields)
      with inf show False by simp
    qed
    with bound have less: "f64_mag x < 2047 * 2 ^ 52" by simp
    from f64_succ_negative [OF neg(2) less] neg less show ?thesis
      by (simp add: r f64_is_nan_iff f64_key_def)
  qed
  then show "\<not> f64_is_nan (np_nextafter_neg_inf x)"
    and "f64_key (np_nextafter_neg_inf x) = f64_key x - 1"
    by simp_all
qed

lemma upper_bound_key:
  assumes "f64_lt low high"
  shows "\<not> f64_is_nan (py_max low (np_nextafter_neg_inf high))"
    and "f64_key (py_max low (np_nextafter_neg_inf high)) = f64_key high - 1"
    and "f64_key (np_nextafter_neg_inf high) = f64_key high - 1"
    and "f64_key low = f64_key high - 1 \<Longrightarrow> py_max low (np_nextafter_neg_inf high) = low"
    and "\<not> f64_is_nan (np_nextafter_neg_inf high)"
proof -
  from assms have nl: "\<not> f64_is_nan low" and nh: "\<not> f64_is_nan high"
    and lt: "f64_key low < f64_key high"
    by (simp_all add: f64_lt_key)
  have "high \<noteq> f64_neg_inf"
    using f64_key_lower [OF nl] lt by (auto simp: f64_key_neg_inf)
  from np_nextafter_key [OF nh this]
  have nn: "\<not> f64_is_nan (np_nextafter_neg_inf high)"
    and kn: "f64_key (np_nextafter_neg_inf high) = f64_key high - 1"
    by simp_all
  show "f64_key (np_nextafter_neg_inf high) = f64_key high - 1"
    by (rule kn)
  show "\<not> f64_is_nan (np_nextafter_neg_inf high)"
    by (rule nn)
  show "\<not> f64_is_nan (py_max low (np_nextafter_neg_inf high))"
    using nl nn by (simp add: py_max_def)
  show "f64_key (py_max low (np_nextafter_neg_inf high)) = f64_key high - 1"
    using nl nn kn lt by (auto simp: py_max_def f64_gt_def f64_lt_key)
  show "py_max low (np_nextafter_neg_inf high) = low" if "f64_key low = f64_key high - 1"
    using that kn by (simp add: py_max_def f64_gt_def f64_lt_key)
qed

subsection \<open>Evaluation\<close>

lemmas eval_defs =
  sorted_items_def Optimizer_init_def is_compatible_def replayed_def
  complete_trial_to_skopt_observation_def tell_def ask_def scripted_def
  discrete_encode_def discrete_decode_def py_floordiv_def exact_arith_def
  spec_methods_def Let_def

lemmas f64_eval =
  f64_lt_key f64_le_key f64_eq_key f64_gt_def f64_is_nan_iff f64_key_def f64_sign_iff f64_mag_mod
  np_nextafter_neg_inf_def py_max_def f64_neg_inf_def f64_neg_min_subnormal_def

section \<open>The claims\<close>

text \<open>
  C1, as amended: for a search space (a dictionary: the names are distinct) and the point the
  backend proposes, \<open>ask\<close> returns for each parameter, in the order of the sorted names,
  the distribution's \<^verbatim>\<open>to_internal_repr\<close> (the conversion from external to internal
  values) of the backend's positional value, for a \<open>DiscreteUniformDistribution\<close> after the
  rescaling \<open>value * q + low\<close>. The values returned are internal representations, and
  \<open>ask\<close> returns whenever every rescaling is defined.
\<close>

theorem ask_returns_internal_repr:
  assumes "distinct (map fst (search_space self))"
  shows
    "(\<forall>result self'. ask M P skopt_ask self = Inr (result, self') \<longrightarrow>
        self' = self\<lparr>optimizer := optimizer self @ [Ask]\<rparr> \<and>
        list_all2
          (\<lambda>((name, d), b) (name', r).
             name' = name \<and> (\<exists>v. decode_value P d b = Inr v \<and> r = to_internal_repr M d v))
          (zip (sorted_items (search_space self)) (skopt_ask (optimizer self))) result) \<and>
     ((\<forall>((name, d), b) \<in> set (zip (sorted_items (search_space self)) (skopt_ask (optimizer self))).
         \<exists>v. decode_value P d b = Inr v) \<longrightarrow>
        (\<exists>result. ask M P skopt_ask self =
           Inr (result, self\<lparr>optimizer := optimizer self @ [Ask]\<rparr>))) \<and>
     decode_value P (DiscreteUniformDistribution low high q) (Num b) = Inr (Num (num_add P (num_mul P b q) low)) \<and>
     ((\<forall>low high q. d \<noteq> DiscreteUniformDistribution low high q) \<longrightarrow> decode_value P d v = Inr v)"
proof (intro conjI allI impI)
  fix result self'
  assume a: "ask M P skopt_ask self = Inr (result, self')"
  show "self' = self\<lparr>optimizer := optimizer self @ [Ask]\<rparr>"
    by (rule ask_Inr(1) [OF assms a])
  show "list_all2
      (\<lambda>((name, d), b) (name', r).
         name' = name \<and> (\<exists>v. decode_value P d b = Inr v \<and> r = to_internal_repr M d v))
      (zip (sorted_items (search_space self)) (skopt_ask (optimizer self))) result"
    by (rule ask_Inr(2) [OF assms a])
next
  assume "\<forall>((name, d), b) \<in> set (zip (sorted_items (search_space self))
                                     (skopt_ask (optimizer self))).
            \<exists>v. decode_value P d b = Inr v"
  then show "\<exists>result. ask M P skopt_ask self =
      Inr (result, self\<lparr>optimizer := optimizer self @ [Ask]\<rparr>)"
    by (rule ask_ok [OF assms])
next
  show "decode_value P (DiscreteUniformDistribution low high q) (Num b) = Inr (Num (num_add P (num_mul P b q) low))"
    by (simp add: discrete_decode_def)
next
  assume "\<forall>low high q. d \<noteq> DiscreteUniformDistribution low high q"
  then show "decode_value P d v = Inr v"
    by (cases d) auto
qed

theorem ask_returns_internal_repr_witness:
  "distinct (map fst [(''x'', DiscreteUniformDistribution 0 10 2),
                      (''act'', CategoricalDistribution [Str ''relu'', Str ''tanh''])]) \<and>
   ask spec_methods exact_arith (scripted [Str ''tanh'', Num 2])
     \<lparr>search_space = [(''x'', DiscreteUniformDistribution 0 10 2),
                      (''act'', CategoricalDistribution [Str ''relu'', Str ''tanh''])],
      optimizer = []\<rparr> =
   Inr ([(''act'', Num 1), (''x'', Num 4)],
        \<lparr>search_space = [(''x'', DiscreteUniformDistribution 0 10 2),
                         (''act'', CategoricalDistribution [Str ''relu'', Str ''tanh''])],
         optimizer = [Ask :: unit skopt_call]\<rparr>)"
  using ask_returns_internal_repr
    [of "\<lparr>search_space = [(''x'', DiscreteUniformDistribution 0 10 2),
                          (''act'', CategoricalDistribution [Str ''relu'', Str ''tanh''])],
          optimizer = ([] :: unit skopt_call list)\<rparr>"
        spec_methods exact_arith "scripted [Str ''tanh'', Num 2]"]
  by (simp add: eval_defs)

text \<open>
  C1 as stated fails: for a categorical parameter with the choices \<open>relu\<close> and \<open>tanh\<close>
  and the proposed choice \<open>tanh\<close>, \<open>ask\<close> returns the index 1, which is neither a choice
  nor the image of the proposed value under the conversion to external values.
\<close>

theorem ask_external_counterexample:
  "ask spec_methods exact_arith (scripted [Str ''tanh''])
     \<lparr>search_space = [(''act'', CategoricalDistribution [Str ''relu'', Str ''tanh''])],
      optimizer = [Construct [space_Categorical [Str ''relu'', Str ''tanh'']] ()]\<rparr> =
   Inr ([(''act'', Num 1)],
        \<lparr>search_space = [(''act'', CategoricalDistribution [Str ''relu'', Str ''tanh''])],
         optimizer = [Construct [space_Categorical [Str ''relu'', Str ''tanh'']] (), Ask]\<rparr>) \<and>
   Num 1 \<noteq> spec_to_external (CategoricalDistribution [Str ''relu'', Str ''tanh'']) (Str ''tanh'') \<and>
   Num 1 \<notin> set [Str ''relu'', Str ''tanh'']"
  by (simp add: eval_defs)

text \<open>
  C2: for a continuous or log-continuous distribution with \<open>low < high\<close> the dimension
  built has the lower bound \<open>low\<close> and the upper bound
  \<^verbatim>\<open>max(low, np.nextafter(high, -inf))\<close>. This bound equals the float next below \<open>high\<close>,
  is less than \<open>high\<close>, is at least \<open>low\<close>, is the greatest float less than \<open>high\<close>,
  and is \<open>low\<close> itself when no float lies between \<open>low\<close> and \<open>high\<close>.
\<close>

theorem continuous_upper_bound:
  assumes "f64_lt low high"
  shows
    "\<exists>ub. to_dimension P (UniformDistribution low high) = Inr (space_Real low ub uniform) \<and>
          to_dimension P (LogUniformDistribution low high) = Inr (space_Real low ub log_uniform) \<and>
          ub = py_max low (np_nextafter_neg_inf high) \<and>
          f64_eq ub (np_nextafter_neg_inf high) \<and>
          f64_lt ub high \<and>
          f64_le low ub \<and>
          (\<forall>z. f64_lt z high \<longrightarrow> f64_le z ub) \<and>
          ((\<forall>z. \<not> (f64_lt low z \<and> f64_lt z high)) \<longrightarrow> ub = low)"
proof -
  let ?ub = "py_max low (np_nextafter_neg_inf high)"
  from assms have nl: "\<not> f64_is_nan low" and nh: "\<not> f64_is_nan high"
    and lt: "f64_key low < f64_key high"
    by (simp_all add: f64_lt_key)
  note nu = upper_bound_key(1) [OF assms]
  note ku = upper_bound_key(2) [OF assms]
  note kn = upper_bound_key(3) [OF assms]
  note nn = upper_bound_key(5) [OF assms]
  have 1: "f64_eq ?ub (np_nextafter_neg_inf high)"
    using nu nn ku kn by (simp add: f64_eq_key)
  have 2: "f64_lt ?ub high"
    using nu nh ku by (simp add: f64_lt_key)
  have 3: "f64_le low ?ub"
    using nu nl ku lt by (simp add: f64_le_key)
  have 4: "f64_le z ?ub" if "f64_lt z high" for z
    using that nu ku by (simp add: f64_lt_key f64_le_key)
  have 5: "?ub = low" if none: "\<forall>z. \<not> (f64_lt low z \<and> f64_lt z high)"
  proof -
    from none 2 have "\<not> f64_lt low ?ub" by blast
    with nl nu have "f64_key ?ub \<le> f64_key low"
      by (simp add: f64_lt_key)
    with ku lt have "f64_key low = f64_key high - 1" by simp
    then show ?thesis
      by (rule upper_bound_key(4) [OF assms])
  qed
  from 1 2 3 4 5 show ?thesis
    by (simp add: Let_def)
qed

theorem continuous_upper_bound_witness:
  "f64_lt 0x3FF0000000000000 0x3FF0000000000001 \<and>
   to_dimension exact_arith (UniformDistribution 0x3FF0000000000000 0x3FF0000000000001) =
     Inr (space_Real 0x3FF0000000000000 0x3FF0000000000000 uniform) \<and>
   f64_lt 0x3F50624DD2F1A9FC 0x4024000000000000 \<and>
   to_dimension exact_arith (LogUniformDistribution 0x3F50624DD2F1A9FC 0x4024000000000000) =
     Inr (space_Real 0x3F50624DD2F1A9FC 0x4023FFFFFFFFFFFF log_uniform) \<and>
   f64_lt 0x4023FFFFFFFFFFFF 0x4024000000000000"
  using continuous_upper_bound [of "0x3FF0000000000000" "0x3FF0000000000001" exact_arith]
    continuous_upper_bound [of "0x3F50624DD2F1A9FC" "0x4024000000000000" exact_arith]
  by (simp add: f64_eval)

text \<open>
  C3: \<open>tell\<close> replays a trial if and only if its state is \<open>COMPLETE\<close> and every name of the
  search space has a recorded value whose internal representation the distribution contains.
  The other trials are skipped and have no effect, not even an error: \<open>tell\<close> on a history
  equals \<open>tell\<close> on its replayed trials alone, the observations told are those of the
  replayed trials in order, and two histories with the same replayed trials (and direction)
  give the same result.
\<close>

theorem tell_replays_compatible_complete:
  "(replayed M self trial \<longleftrightarrow>
      state trial = COMPLETE \<and>
      (\<forall>(name, d) \<in> set (search_space self).
         \<exists>v. params trial name = Some v \<and> contains M d (to_internal_repr M d v))) \<and>
   tell M P self study =
     tell M P self (study\<lparr>trials := filter (replayed M self) (trials study)\<rparr>) \<and>
   (\<forall>self'. tell M P self study = Inr self' \<longrightarrow>
      (\<exists>obs. optimizer self' = optimizer self @ [Tell (map fst obs) (map snd obs)] \<and>
             list_all2 (\<lambda>t ob. complete_trial_to_skopt_observation P self study t = Inr ob)
               (filter (replayed M self) (trials study)) obs)) \<and>
   (\<forall>study'. direction study' = direction study \<and>
        filter (replayed M self) (trials study') = filter (replayed M self) (trials study) \<longrightarrow>
      tell M P self study' = tell M P self study)"
proof -
  have a: "replayed M self trial \<longleftrightarrow>
      state trial = COMPLETE \<and>
      (\<forall>(name, d) \<in> set (search_space self).
         \<exists>v. params trial name = Some v \<and> contains M d (to_internal_repr M d v))"
    by (simp add: replayed_def is_compatible_iff)
  have c: "\<exists>obs. optimizer self' = optimizer self @ [Tell (map fst obs) (map snd obs)] \<and>
             list_all2 (\<lambda>t ob. complete_trial_to_skopt_observation P self study t = Inr ob)
               (filter (replayed M self) (trials study)) obs"
    if "tell M P self study = Inr self'" for self'
  proof -
    from tell_Inr [OF that] obtain obs
      where s: "self' = self\<lparr>optimizer := optimizer self @ [Tell (map fst obs) (map snd obs)]\<rparr>"
        and m: "map (complete_trial_to_skopt_observation P self study)
                  (filter (replayed M self) (trials study)) = map Inr obs"
      by blast
    from map_eq_list_all2 [OF m] s show ?thesis
      by auto
  qed
  have d: "tell M P self study' = tell M P self study"
    if "direction study' = direction study \<and>
        filter (replayed M self) (trials study') = filter (replayed M self) (trials study)"
    for study'
    using that tell_same_subset [where study' = study' and study = study and M = M and P = P and self = self] by simp
  show ?thesis
  proof (intro conjI allI impI)
    show "replayed M self trial \<longleftrightarrow>
      state trial = COMPLETE \<and>
      (\<forall>(name, d) \<in> set (search_space self).
         \<exists>v. params trial name = Some v \<and> contains M d (to_internal_repr M d v))"
      by (rule a)
    show "tell M P self study =
      tell M P self (study\<lparr>trials := filter (replayed M self) (trials study)\<rparr>)"
      by (rule tell_filter)
  qed (use c d in blast)+
qed

theorem tell_replays_compatible_complete_witness:
  "filter (replayed spec_methods
             \<lparr>search_space = [(''x'', IntUniformDistribution 0 10)],
              optimizer = [Construct [space_Integer 0 10] ()]\<rparr>)
     [\<lparr>state = COMPLETE, params = [''x'' \<mapsto> Num 15], trial_value = Some 1\<rparr>,
      \<lparr>state = COMPLETE, params = [''x'' \<mapsto> Num 5], trial_value = Some 2\<rparr>,
      \<lparr>state = RUNNING, params = [''x'' \<mapsto> Num 3], trial_value = None\<rparr>,
      \<lparr>state = COMPLETE, params = [''y'' \<mapsto> Num 4], trial_value = Some 4\<rparr>] =
     [\<lparr>state = COMPLETE, params = [''x'' \<mapsto> Num 5], trial_value = Some 2\<rparr>] \<and>
   tell spec_methods exact_arith
     \<lparr>search_space = [(''x'', IntUniformDistribution 0 10)],
      optimizer = [Construct [space_Integer 0 10] ()]\<rparr>
     \<lparr>trials =
        [\<lparr>state = COMPLETE, params = [''x'' \<mapsto> Num 15], trial_value = Some 1\<rparr>,
         \<lparr>state = COMPLETE, params = [''x'' \<mapsto> Num 5], trial_value = Some 2\<rparr>,
         \<lparr>state = RUNNING, params = [''x'' \<mapsto> Num 3], trial_value = None\<rparr>,
         \<lparr>state = COMPLETE, params = [''y'' \<mapsto> Num 4], trial_value = Some 4\<rparr>],
      direction = MINIMIZE\<rparr> =
   tell spec_methods exact_arith
     \<lparr>search_space = [(''x'', IntUniformDistribution 0 10)],
      optimizer = [Construct [space_Integer 0 10] ()]\<rparr>
     \<lparr>trials = [\<lparr>state = COMPLETE, params = [''x'' \<mapsto> Num 5], trial_value = Some 2\<rparr>],
      direction = MINIMIZE\<rparr> \<and>
   tell spec_methods exact_arith
     \<lparr>search_space = [(''x'', IntUniformDistribution 0 10)],
      optimizer = [Construct [space_Integer 0 10] ()]\<rparr>
     \<lparr>trials = [\<lparr>state = COMPLETE, params = [''x'' \<mapsto> Num 5], trial_value = Some 2\<rparr>],
      direction = MINIMIZE\<rparr> =
   Inr \<lparr>search_space = [(''x'', IntUniformDistribution 0 10)],
        optimizer = [Construct [space_Integer 0 10] (), Tell [[Num 5]] [2]]\<rparr>"
  using tell_replays_compatible_complete
    [of spec_methods
        "\<lparr>search_space = [(''x'', IntUniformDistribution 0 10)],
          optimizer = [Construct [space_Integer 0 10] ()]\<rparr>"
        "\<lparr>state = COMPLETE, params = [''x'' \<mapsto> Num 15], trial_value = Some 1\<rparr>"
        exact_arith
        "\<lparr>trials =
            [\<lparr>state = COMPLETE, params = [''x'' \<mapsto> Num 15], trial_value = Some 1\<rparr>,
             \<lparr>state = COMPLETE, params = [''x'' \<mapsto> Num 5], trial_value = Some 2\<rparr>,
             \<lparr>state = RUNNING, params = [''x'' \<mapsto> Num 3], trial_value = None\<rparr>,
             \<lparr>state = COMPLETE, params = [''y'' \<mapsto> Num 4], trial_value = Some 4\<rparr>],
          direction = MINIMIZE\<rparr>"]
  by (simp add: eval_defs)



text \<open>
  C5: the objective told to the backend for a replayed trial is the recorded value of the
  trial when the direction of the study is \<open>MINIMIZE\<close> and its negation when it is
  \<open>MAXIMIZE\<close>; with direction \<open>MAXIMIZE\<close> and value 5 the backend is told -5.
\<close>

theorem tell_objective_sign:
  "(\<forall>x y. complete_trial_to_skopt_observation P self study trial = Inr (x, y) \<longrightarrow>
      (\<exists>v. trial_value trial = Some v \<and>
           (direction study = MINIMIZE \<longrightarrow> y = v) \<and>
           (direction study = MAXIMIZE \<longrightarrow> y = - v))) \<and>
   (\<forall>self'. tell M P self study = Inr self' \<longrightarrow>
      (\<exists>xs ys. optimizer self' = optimizer self @ [Tell xs ys] \<and>
         list_all2
           (\<lambda>t y. \<exists>v. trial_value t = Some v \<and>
                     (direction study = MINIMIZE \<longrightarrow> y = v) \<and>
                     (direction study = MAXIMIZE \<longrightarrow> y = - v))
           (filter (replayed M self) (trials study)) ys))"
proof (intro conjI allI impI)
  fix x y
  assume "complete_trial_to_skopt_observation P self study trial = Inr (x, y)"
  from observation_Inr(1) [OF this]
  show "\<exists>v. trial_value trial = Some v \<and>
           (direction study = MINIMIZE \<longrightarrow> y = v) \<and>
           (direction study = MAXIMIZE \<longrightarrow> y = - v)"
    by (cases "direction study") auto
next
  fix self'
  assume "tell M P self study = Inr self'"
  from tell_Inr [OF this] obtain obs
    where s: "self' = self\<lparr>optimizer := optimizer self @ [Tell (map fst obs) (map snd obs)]\<rparr>"
      and m: "map (complete_trial_to_skopt_observation P self study)
                (filter (replayed M self) (trials study)) = map Inr obs"
    by blast
  have "list_all2 (\<lambda>t ob. complete_trial_to_skopt_observation P self study t = Inr ob)
          (filter (replayed M self) (trials study)) obs"
    by (rule map_eq_list_all2 [OF m])
  then have "list_all2
      (\<lambda>t ob. \<exists>v. trial_value t = Some v \<and>
                (direction study = MINIMIZE \<longrightarrow> snd ob = v) \<and>
                (direction study = MAXIMIZE \<longrightarrow> snd ob = - v))
      (filter (replayed M self) (trials study)) obs"
  proof (rule list_all2_mono)
    fix t ob
    assume ob: "complete_trial_to_skopt_observation P self study t = Inr ob"
    obtain x y where "ob = (x, y)" by (cases ob)
    with observation_Inr(1) [of P self study t x y] ob
    show "\<exists>v. trial_value t = Some v \<and>
                (direction study = MINIMIZE \<longrightarrow> snd ob = v) \<and>
                (direction study = MAXIMIZE \<longrightarrow> snd ob = - v)"
      by (cases "direction study") auto
  qed
  then have "list_all2
      (\<lambda>t y. \<exists>v. trial_value t = Some v \<and>
                (direction study = MINIMIZE \<longrightarrow> y = v) \<and>
                (direction study = MAXIMIZE \<longrightarrow> y = - v))
      (filter (replayed M self) (trials study)) (map snd obs)"
    by (simp add: list_all2_map2)
  with s show "\<exists>xs ys. optimizer self' = optimizer self @ [Tell xs ys] \<and>
         list_all2
           (\<lambda>t y. \<exists>v. trial_value t = Some v \<and>
                     (direction study = MINIMIZE \<longrightarrow> y = v) \<and>
                     (direction study = MAXIMIZE \<longrightarrow> y = - v))
           (filter (replayed M self) (trials study)) ys"
    by auto
qed

theorem tell_objective_sign_witness:
  "tell spec_methods exact_arith
     \<lparr>search_space = [(''x'', IntUniformDistribution 0 10)],
      optimizer = [Construct [space_Integer 0 10] ()]\<rparr>
     \<lparr>trials = [\<lparr>state = COMPLETE, params = [''x'' \<mapsto> Num 3], trial_value = Some 5\<rparr>],
      direction = MAXIMIZE\<rparr> =
   Inr \<lparr>search_space = [(''x'', IntUniformDistribution 0 10)],
        optimizer = [Construct [space_Integer 0 10] (), Tell [[Num 3]] [- 5]]\<rparr> \<and>
   complete_trial_to_skopt_observation exact_arith
     \<lparr>search_space = [(''x'', IntUniformDistribution 0 10)],
      optimizer = [Construct [space_Integer 0 10] ()]\<rparr>
     \<lparr>trials = [\<lparr>state = COMPLETE, params = [''x'' \<mapsto> Num 3], trial_value = Some 5\<rparr>],
      direction = MAXIMIZE\<rparr>
     \<lparr>state = COMPLETE, params = [''x'' \<mapsto> Num 3], trial_value = Some 5\<rparr> =
   Inr ([Num 3], - 5)"
  using tell_objective_sign
    [of exact_arith
        "\<lparr>search_space = [(''x'', IntUniformDistribution 0 10)],
          optimizer = [Construct [space_Integer 0 10] ()]\<rparr>"
        "\<lparr>trials = [\<lparr>state = COMPLETE, params = [''x'' \<mapsto> Num 3], trial_value = Some 5\<rparr>],
          direction = MAXIMIZE\<rparr>"
        "\<lparr>state = COMPLETE, params = [''x'' \<mapsto> Num 3], trial_value = Some 5\<rparr>"
        spec_methods]
  by (simp add: eval_defs)

text \<open>
  C6: the constructor, the point of every observation and the decoding of the proposed point
  go through the parameters in one order, that of \<open>sorted_items\<close>: the names strictly
  ascending in the lexicographic order of strings. Position \<open>i\<close> of the dimensions, of a
  point told and of the point asked belongs to the \<open>i\<close>-th name.
\<close>

theorem positional_order:
  assumes "distinct (map fst space)"
  shows
    "sorted_wrt (<) (map fst (sorted_items space)) \<and>
     set (sorted_items space) = set space \<and>
     length (sorted_items space) = length space \<and>
     (\<forall>kwargs self. Optimizer_init P space kwargs = Inr self \<longrightarrow>
        search_space self = space \<and>
        (\<exists>dimensions. optimizer self = [Construct dimensions kwargs] \<and>
           list_all2 (\<lambda>(name, d) dimension. to_dimension P d = Inr dimension)
             (sorted_items space) dimensions)) \<and>
     (\<forall>self study trial x y.
        search_space self = space \<and>
        complete_trial_to_skopt_observation P self study trial = Inr (x, y) \<longrightarrow>
        list_all2 (\<lambda>(name, d) v. \<exists>pv. params trial name = Some pv \<and> encode_value P d pv = Inr v)
          (sorted_items space) x) \<and>
     (\<forall>M skopt_ask self result self'.
        search_space self = space \<and> ask M P skopt_ask self = Inr (result, self') \<longrightarrow>
        list_all2
          (\<lambda>((name, d), b) (name', r).
             name' = name \<and> (\<exists>v. decode_value P d b = Inr v \<and> r = to_internal_repr M d v))
          (zip (sorted_items space) (skopt_ask (optimizer self))) result)"
proof (intro conjI allI impI)
  show "sorted_wrt (<) (map fst (sorted_items space))"
    using sorted_names [of space] distinct_sorted_items [OF assms]
    by (simp add: strict_sorted_iff)
  show "set (sorted_items space) = set space"
    by (rule set_sorted_items)
  show "length (sorted_items space) = length space"
    by (rule length_sorted_items)
next
  fix kwargs and self :: "'a Optimizer"
  assume init: "Optimizer_init P space kwargs = Inr self"
  show "search_space self = space"
    by (rule Optimizer_init_Inr(1) [OF init])
  from Optimizer_init_Inr(2) [OF init] obtain dims
    where o: "optimizer self = [Construct dims kwargs]"
      and m: "map (to_dimension P \<circ> snd) (sorted_items space) = map Inr dims"
    by blast
  have "list_all2 (\<lambda>item dimension. (to_dimension P \<circ> snd) item = Inr dimension)
          (sorted_items space) dims"
    by (rule map_eq_list_all2 [OF m])
  then have "list_all2 (\<lambda>(name, d) dimension. to_dimension P d = Inr dimension)
          (sorted_items space) dims"
    by (rule list_all2_mono) auto
  with o show "\<exists>dimensions. optimizer self = [Construct dimensions kwargs] \<and>
           list_all2 (\<lambda>(name, d) dimension. to_dimension P d = Inr dimension)
             (sorted_items space) dimensions"
    by blast
next
  fix self :: "'b Optimizer" and study trial x y
  assume a: "search_space self = space \<and>
        complete_trial_to_skopt_observation P self study trial = Inr (x, y)"
  from a observation_Inr(2) [of P self study trial x y]
  have "map (observe_param P trial) (sorted_items space) = map Inr x"
    by simp
  then have "list_all2 (\<lambda>item v. observe_param P trial item = Inr v) (sorted_items space) x"
    by (rule map_eq_list_all2)
  then show "list_all2
      (\<lambda>(name, d) v. \<exists>pv. params trial name = Some pv \<and> encode_value P d pv = Inr v)
      (sorted_items space) x"
    by (rule list_all2_mono) (auto split: option.splits)
next
  fix M skopt_ask and self :: "'c Optimizer" and result self'
  assume a: "search_space self = space \<and> ask M P skopt_ask self = Inr (result, self')"
  then have "distinct (map fst (search_space self))"
    using assms by simp
  from ask_Inr(2) [OF this, of M P skopt_ask result self'] a
  show "list_all2
          (\<lambda>((name, d), b) (name', r).
             name' = name \<and> (\<exists>v. decode_value P d b = Inr v \<and> r = to_internal_repr M d v))
          (zip (sorted_items space) (skopt_ask (optimizer self))) result"
    by blast
qed

theorem positional_order_witness:
  "distinct (map fst [(''b'', IntUniformDistribution 0 3),
                      (''c'', DiscreteUniformDistribution 0 10 2),
                      (''a'', CategoricalDistribution [Str ''relu'', Str ''tanh''])]) \<and>
   map fst (sorted_items [(''b'', IntUniformDistribution 0 3),
                          (''c'', DiscreteUniformDistribution 0 10 2),
                          (''a'', CategoricalDistribution [Str ''relu'', Str ''tanh''])]) =
     [''a'', ''b'', ''c''] \<and>
   Optimizer_init exact_arith [(''b'', IntUniformDistribution 0 3),
                   (''c'', DiscreteUniformDistribution 0 10 2),
                   (''a'', CategoricalDistribution [Str ''relu'', Str ''tanh''])] () =
     Inr \<lparr>search_space = [(''b'', IntUniformDistribution 0 3),
                          (''c'', DiscreteUniformDistribution 0 10 2),
                          (''a'', CategoricalDistribution [Str ''relu'', Str ''tanh''])],
          optimizer = [Construct [space_Categorical [Str ''relu'', Str ''tanh''],
                                  space_Integer 0 3, space_Integer 0 5] ()]\<rparr> \<and>
   complete_trial_to_skopt_observation exact_arith
     \<lparr>search_space = [(''b'', IntUniformDistribution 0 3),
                      (''c'', DiscreteUniformDistribution 0 10 2),
                      (''a'', CategoricalDistribution [Str ''relu'', Str ''tanh''])],
      optimizer = [Construct [space_Categorical [Str ''relu'', Str ''tanh''],
                              space_Integer 0 3, space_Integer 0 5] ()]\<rparr>
     \<lparr>trials = [], direction = MINIMIZE\<rparr>
     \<lparr>state = COMPLETE,
      params = [''c'' \<mapsto> Num 6, ''a'' \<mapsto> Str ''tanh'', ''b'' \<mapsto> Num 1],
      trial_value = Some 7\<rparr> =
     Inr ([Str ''tanh'', Num 1, Num 3], 7) \<and>
   ask spec_methods exact_arith (scripted [Str ''relu'', Num 2, Num 4])
     \<lparr>search_space = [(''b'', IntUniformDistribution 0 3),
                      (''c'', DiscreteUniformDistribution 0 10 2),
                      (''a'', CategoricalDistribution [Str ''relu'', Str ''tanh''])],
      optimizer = [Construct [space_Categorical [Str ''relu'', Str ''tanh''],
                              space_Integer 0 3, space_Integer 0 5] ()]\<rparr> =
     Inr ([(''a'', Num 0), (''b'', Num 2), (''c'', Num 8)],
          \<lparr>search_space = [(''b'', IntUniformDistribution 0 3),
                           (''c'', DiscreteUniformDistribution 0 10 2),
                           (''a'', CategoricalDistribution [Str ''relu'', Str ''tanh''])],
           optimizer = [Construct [space_Categorical [Str ''relu'', Str ''tanh''],
                                   space_Integer 0 3, space_Integer 0 5] (), Ask]\<rparr>)"
  using positional_order
    [of "[(''b'', IntUniformDistribution 0 3),
          (''c'', DiscreteUniformDistribution 0 10 2),
          (''a'', CategoricalDistribution [Str ''relu'', Str ''tanh''])]" exact_arith]
  by (simp add: eval_defs)

text \<open>
  C7: \<open>infer_relative_search_space\<close> returns exactly the entries of
  \<^verbatim>\<open>product_search_space(study)\<close> whose distribution is categorical or not single: a single
  distribution that is not categorical is dropped, a single categorical one is kept.
\<close>

theorem infer_relative_search_space_filter:
  assumes "distinct (map fst (product_search_space study))"
  shows "infer_relative_search_space M product_search_space study =
           filter (\<lambda>(name, d). is_CategoricalDistribution d \<or> \<not> single M d)
             (product_search_space study)"
  using infer_loop_filter [OF assms, of "[]" M]
  by (simp add: infer_relative_search_space_def)

theorem infer_relative_search_space_filter_witness:
  "distinct (map fst [(''layers'', IntUniformDistribution 3 3),
                      (''act'', CategoricalDistribution [Str ''relu'']),
                      (''units'', IntUniformDistribution 16 64)]) \<and>
   infer_relative_search_space spec_methods
     (\<lambda>study. [(''layers'', IntUniformDistribution 3 3),
               (''act'', CategoricalDistribution [Str ''relu'']),
               (''units'', IntUniformDistribution 16 64)])
     \<lparr>trials = [], direction = MINIMIZE\<rparr> =
   [(''act'', CategoricalDistribution [Str ''relu'']),
    (''units'', IntUniformDistribution 16 64)]"
  using infer_relative_search_space_filter
    [of "\<lambda>study. [(''layers'', IntUniformDistribution 3 3),
                   (''act'', CategoricalDistribution [Str ''relu'']),
                   (''units'', IntUniformDistribution 16 64)]"
        "\<lparr>trials = [], direction = MINIMIZE\<rparr>" spec_methods]
  by (simp add: spec_methods_def)

text \<open>
  C8: with an empty search space \<open>sample_relative\<close> returns the empty dictionary, and the
  backend receives no call: no optimizer is constructed, nothing is told, nothing is asked.
\<close>

theorem sample_relative_empty:
  "sample_relative M P skopt_ask self study [] = Inr ([], [])"
  by (simp add: sample_relative_def)

text \<open>
  C9, as amended: when the search space has a parameter whose distribution is none of the five
  supported classes, the constructor raises and builds no optimizer; the parameter is never
  skipped. The error is \<open>NotImplementedError\<close> when every stepped distribution with step 0
  has a name after that of the unsupported parameter (in particular when there is none); it
  is \<open>ZeroDivisionError\<close> when a stepped distribution with step 0 has a name before those
  of all unsupported parameters, since the dimensions are built in the order of the names.
\<close>

theorem Optimizer_init_unsupported:
  assumes "(name, d) \<in> set space" and "\<not> is_supported d"
  shows "(\<exists>e. Optimizer_init P space kwargs = Inl e) \<and>
         ((\<forall>n low high. (n, DiscreteUniformDistribution low high 0) \<in> set space \<longrightarrow> name < n) \<longrightarrow>
          Optimizer_init P space kwargs = Inl NotImplementedError) \<and>
         ((\<exists>n low high. (n, DiscreteUniformDistribution low high 0) \<in> set space \<and>
             (\<forall>n' d'. (n', d') \<in> set space \<and> \<not> is_supported d' \<longrightarrow> n < n')) \<longrightarrow>
          Optimizer_init P space kwargs = Inl ZeroDivisionError)"
proof (intro conjI impI)
  show "\<exists>e. Optimizer_init P space kwargs = Inl e"
    by (rule unsupported_never_built [OF assms, THEN conjunct1])
next
  assume later: "\<forall>n low high. (n, DiscreteUniformDistribution low high 0) \<in> set space \<longrightarrow> name < n"
  show "Optimizer_init P space kwargs = Inl NotImplementedError"
  proof (rule Optimizer_init_first_error [OF assms(1) to_dimension_unsupported [OF assms(2)]],
      intro ballI, clarify)
    fix n' d' e'
    assume "(n', d') \<in> set space" "to_dimension P d' = Inl e'" "e' \<noteq> NotImplementedError"
    with to_dimension_error [of P d' e'] later show "name < n'"
      by auto
  qed
next
  assume "\<exists>n low high. (n, DiscreteUniformDistribution low high 0) \<in> set space \<and>
             (\<forall>n' d'. (n', d') \<in> set space \<and> \<not> is_supported d' \<longrightarrow> n < n')"
  then obtain n low high
    where z: "(n, DiscreteUniformDistribution low high 0) \<in> set space"
      and first: "\<forall>n' d'. (n', d') \<in> set space \<and> \<not> is_supported d' \<longrightarrow> n < n'"
    by blast
  show "Optimizer_init P space kwargs = Inl ZeroDivisionError"
  proof (rule Optimizer_init_first_error [OF z to_dimension_zero_step], intro ballI, clarify)
    fix n' d' e'
    assume "(n', d') \<in> set space" "to_dimension P d' = Inl e'" "e' \<noteq> ZeroDivisionError"
    with to_dimension_error [of P d' e'] first show "n < n'"
      by auto
  qed
qed

theorem Optimizer_init_unsupported_witness:
  "(''y'', OtherDistribution ''PoissonDistribution'')
     \<in> set [(''z'', DiscreteUniformDistribution 0 10 0),
            (''y'', OtherDistribution ''PoissonDistribution''),
            (''x'', IntUniformDistribution 0 3)] \<and>
   \<not> is_supported (OtherDistribution ''PoissonDistribution'') \<and>
   Optimizer_init exact_arith
     [(''z'', DiscreteUniformDistribution 0 10 0),
      (''y'', OtherDistribution ''PoissonDistribution''),
      (''x'', IntUniformDistribution 0 3)] () = Inl NotImplementedError"
  using Optimizer_init_unsupported
    [of "''y''" "OtherDistribution ''PoissonDistribution''"
        "[(''z'', DiscreteUniformDistribution 0 10 0),
          (''y'', OtherDistribution ''PoissonDistribution''),
          (''x'', IntUniformDistribution 0 3)]" exact_arith "()"]
  by simp

text \<open>
  C9 as stated fails: with a stepped parameter \<open>a\<close> of step 0 and an unsupported parameter
  \<open>b\<close> the constructor raises \<open>ZeroDivisionError\<close>, not the error of the unsupported
  distribution.
\<close>

theorem Optimizer_init_unsupported_counterexample:
  "Optimizer_init exact_arith
     [(''a'', DiscreteUniformDistribution 0 10 0),
      (''b'', OtherDistribution ''PoissonDistribution'')] () = Inl ZeroDivisionError \<and>
   Optimizer_init exact_arith
     [(''a'', DiscreteUniformDistribution 0 10 0),
      (''b'', OtherDistribution ''PoissonDistribution'')] () \<noteq> Inl NotImplementedError"
  by (simp add: Optimizer_init_def sorted_items_def py_floordiv_def)

text \<open>
  C10: a call of \<open>tell\<close> that returns has made exactly one call of the backend's
  \<^verbatim>\<open>tell\<close>, with one point and one objective for each replayed trial; when no trial is
  replayed the backend is told the empty batch; and \<open>tell\<close> returns for every history whose
  replayed trials have a value and numbers for the stepped parameters.
\<close>

theorem tell_calls_backend_once:
  "(\<forall>self'. tell M P self study = Inr self' \<longrightarrow>
      (\<exists>xs ys. optimizer self' = optimizer self @ [Tell xs ys] \<and>
         length xs = length (filter (replayed M self) (trials study)) \<and>
         length ys = length xs)) \<and>
   (filter (replayed M self) (trials study) = [] \<longrightarrow>
      tell M P self study = Inr (self\<lparr>optimizer := optimizer self @ [Tell [] []]\<rparr>)) \<and>
   (Optimizer_init P space kwargs = Inr self \<and>
    (\<forall>t \<in> set (trials study). replayed M self t \<longrightarrow>
       trial_value t \<noteq> None \<and>
       (\<forall>name low high q s. (name, DiscreteUniformDistribution low high q) \<in> set space \<longrightarrow>
          params t name \<noteq> Some (Str s))) \<longrightarrow>
      (\<exists>xs ys. tell M P self study = Inr (self\<lparr>optimizer := optimizer self @ [Tell xs ys]\<rparr>)))"
proof (intro conjI allI impI)
  fix self'
  assume "tell M P self study = Inr self'"
  from tell_Inr [OF this] obtain obs
    where s: "self' = self\<lparr>optimizer := optimizer self @ [Tell (map fst obs) (map snd obs)]\<rparr>"
      and m: "map (complete_trial_to_skopt_observation P self study)
                (filter (replayed M self) (trials study)) = map Inr obs"
    by blast
  from m have "length (filter (replayed M self) (trials study)) = length obs"
    by (rule map_eq_imp_length_eq)
  with s show "\<exists>xs ys. optimizer self' = optimizer self @ [Tell xs ys] \<and>
         length xs = length (filter (replayed M self) (trials study)) \<and>
         length ys = length xs"
    by auto
next
  assume "filter (replayed M self) (trials study) = []"
  then show "tell M P self study = Inr (self\<lparr>optimizer := optimizer self @ [Tell [] []]\<rparr>)"
    by (simp add: tell_collect)
next
  assume a: "Optimizer_init P space kwargs = Inr self \<and>
    (\<forall>t \<in> set (trials study). replayed M self t \<longrightarrow>
       trial_value t \<noteq> None \<and>
       (\<forall>name low high q s. (name, DiscreteUniformDistribution low high q) \<in> set space \<longrightarrow>
          params t name \<noteq> Some (Str s)))"
  have "\<exists>ob. r = Inr ob"
    if "r \<in> set (map (complete_trial_to_skopt_observation P self study)
                  (filter (replayed M self) (trials study)))" for r
  proof -
    from that obtain t where t: "t \<in> set (trials study)" "replayed M self t"
      and r: "r = complete_trial_to_skopt_observation P self study t"
      by auto
    from a t obtain y where y: "trial_value t = Some y"
      by auto
    from a t have num: "\<forall>name low high q s.
        (name, DiscreteUniformDistribution low high q) \<in> set space \<longrightarrow>
        params t name \<noteq> Some (Str s)"
      by blast
    from a have init: "Optimizer_init P space kwargs = Inr self"
      by simp
    from t have compat: "is_compatible M self t"
      by (simp add: replayed_def)
    from observation_ok [where study = study, OF init compat y num] r show ?thesis
      by auto
  qed
  from collect_all_Inr [OF this] obtain obs
    where "collect (map (complete_trial_to_skopt_observation P self study)
             (filter (replayed M self) (trials study))) = Inr obs"
    by blast
  then show "\<exists>xs ys. tell M P self study = Inr (self\<lparr>optimizer := optimizer self @ [Tell xs ys]\<rparr>)"
    by (auto simp: tell_collect)
qed

theorem tell_calls_backend_once_witness:
  "Optimizer_init exact_arith [(''x'', IntUniformDistribution 0 10)] () =
     Inr \<lparr>search_space = [(''x'', IntUniformDistribution 0 10)],
          optimizer = [Construct [space_Integer 0 10] ()]\<rparr> \<and>
   filter (replayed spec_methods
             \<lparr>search_space = [(''x'', IntUniformDistribution 0 10)],
              optimizer = [Construct [space_Integer 0 10] ()]\<rparr>)
     [\<lparr>state = COMPLETE, params = [''x'' \<mapsto> Num 15], trial_value = Some 1\<rparr>,
      \<lparr>state = RUNNING, params = [''x'' \<mapsto> Num 3], trial_value = None\<rparr>] = [] \<and>
   tell spec_methods exact_arith
     \<lparr>search_space = [(''x'', IntUniformDistribution 0 10)],
      optimizer = [Construct [space_Integer 0 10] ()]\<rparr>
     \<lparr>trials =
        [\<lparr>state = COMPLETE, params = [''x'' \<mapsto> Num 15], trial_value = Some 1\<rparr>,
         \<lparr>state = RUNNING, params = [''x'' \<mapsto> Num 3], trial_value = None\<rparr>],
      direction = MINIMIZE\<rparr> =
   Inr \<lparr>search_space = [(''x'', IntUniformDistribution 0 10)],
        optimizer = [Construct [space_Integer 0 10] (), Tell [] []]\<rparr> \<and>
   tell spec_methods exact_arith
     \<lparr>search_space = [(''x'', IntUniformDistribution 0 10)],
      optimizer = [Construct [space_Integer 0 10] ()]\<rparr>
     \<lparr>trials = [], direction = MINIMIZE\<rparr> =
   Inr \<lparr>search_space = [(''x'', IntUniformDistribution 0 10)],
        optimizer = [Construct [space_Integer 0 10] (), Tell [] []]\<rparr>"
  using
    tell_calls_backend_once
      [of spec_methods exact_arith
          "\<lparr>search_space = [(''x'', IntUniformDistribution 0 10)],
            optimizer = [Construct [space_Integer 0 10] ()]\<rparr>"
          "\<lparr>trials =
              [\<lparr>state = COMPLETE, params = [''x'' \<mapsto> Num 15], trial_value = Some 1\<rparr>,
               \<lparr>state = RUNNING, params = [''x'' \<mapsto> Num 3], trial_value = None\<rparr>],
            direction = MINIMIZE\<rparr>"
          "[(''x'', IntUniformDistribution 0 10)]" "()"]
    tell_calls_backend_once
      [of spec_methods exact_arith
          "\<lparr>search_space = [(''x'', IntUniformDistribution 0 10)],
            optimizer = [Construct [space_Integer 0 10] ()]\<rparr>"
          "\<lparr>trials = [], direction = MINIMIZE\<rparr>"
          "[(''x'', IntUniformDistribution 0 10)]" "()"]
  by (simp add: sorted_items_def Optimizer_init_def is_compatible_def replayed_def spec_methods_def)

end
